theory Spec2Isabelle
  imports Complex_Main "HOL-Library.Char_ord" "HOL-Library.List_Lexorder" "HOL-Library.Multiset"
begin

section \<open>Strings\<close>

text \<open>
  A JavaScript string is a sequence of 16-bit code units. The model uses \<^typ>\<open>string\<close>,
  whose characters are the code units \<open>0x00\<close> to \<open>0xFF\<close> (Latin-1); every character
  the parser tests for (comma, double quote, dollar sign, digits, CR, LF, the letters of
  the two header tokens) lies in that range.

  \<open>String.prototype.trim\<close> and the regular-expression class \<open>\s\<close> use the same set:
  WhiteSpace and LineTerminator of ECMAScript. Below \<open>0x100\<close> these are TAB, LF, VT, FF,
  CR, SPACE and NO-BREAK SPACE.
\<close>

definition isWhiteSpace :: "char \<Rightarrow> bool" where
  "isWhiteSpace c \<longleftrightarrow>
     c \<in> set [CHR 0x09, CHR 0x0A, CHR 0x0B, CHR 0x0C, CHR 0x0D, CHR 0x20, CHR 0xA0]"

definition trimStart :: "string \<Rightarrow> string" where
  "trimStart s = dropWhile isWhiteSpace s"

definition trimEnd :: "string \<Rightarrow> string" where
  "trimEnd s = rev (dropWhile isWhiteSpace (rev s))"

definition trim :: "string \<Rightarrow> string" where
  "trim s = trimEnd (trimStart s)"

text \<open>
  \<open>toLowerCase\<close> on Latin-1: \<open>A\<close>..\<open>Z\<close> and \<open>0xC0\<close>..\<open>0xDE\<close> (without the
  multiplication sign \<open>0xD7\<close>) move up by \<open>0x20\<close>; nothing else changes.
\<close>

definition lowerChar :: "char \<Rightarrow> char" where
  "lowerChar c =
     (let n = (of_char c :: nat)
      in if (65 \<le> n \<and> n \<le> 90) \<or> (192 \<le> n \<and> n \<le> 222 \<and> n \<noteq> 215)
         then char_of (n + 32) else c)"

definition toLowerCase :: "string \<Rightarrow> string" where
  "toLowerCase s = map lowerChar s"

definition startsWith :: "string \<Rightarrow> string \<Rightarrow> bool" where
  "startsWith s p \<longleftrightarrow> take (length p) s = p"

text \<open>
  \<open>s.split(/\r?\n/)\<close>: the scan goes left to right; at a CR followed by LF both are the
  separator, a single LF is a separator, a CR alone is an ordinary character. The empty
  string splits into one empty line.
\<close>

fun split_loop :: "string \<Rightarrow> string \<Rightarrow> string list" where
  "split_loop cur [] = [cur]"
| "split_loop cur [c] = (if c = CHR 0x0A then [cur, []] else [cur @ [c]])"
| "split_loop cur (c # d # cs) =
     (if c = CHR 0x0D \<and> d = CHR 0x0A then cur # split_loop [] cs
      else if c = CHR 0x0A then cur # split_loop [] (d # cs)
      else split_loop (cur @ [c]) (d # cs))"

definition split :: "string \<Rightarrow> string list" where
  "split s = split_loop [] s"

section \<open>The row tokenizer\<close>

text \<open>
  \<open>parseLine\<close> (utils.ts, lines 11 to 33). The \<open>for\<close> loop over the index \<open>i\<close> is a
  recursion over the rest of the line; \<open>line[i + 1]\<close> is the head of what follows, and
  \<open>undefined\<close> (never equal to a quote) at the end of the line.
\<close>

fun parseLine_loop :: "string list \<Rightarrow> string \<Rightarrow> bool \<Rightarrow> string \<Rightarrow> string list" where
  "parseLine_loop result cur inQuotes [] = result @ [trim cur]"
| "parseLine_loop result cur inQuotes [c] =
     (if c = CHR 0x22 then parseLine_loop result cur (\<not> inQuotes) []
      else if c = CHR '','' \<and> \<not> inQuotes then parseLine_loop (result @ [trim cur]) [] inQuotes []
      else parseLine_loop result (cur @ [c]) inQuotes [])"
| "parseLine_loop result cur inQuotes (c # d # rest) =
     (if c = CHR 0x22 then
        (if inQuotes \<and> d = CHR 0x22 then parseLine_loop result (cur @ [CHR 0x22]) inQuotes rest
         else parseLine_loop result cur (\<not> inQuotes) (d # rest))
      else if c = CHR '','' \<and> \<not> inQuotes then
        parseLine_loop (result @ [trim cur]) [] inQuotes (d # rest)
      else parseLine_loop result (cur @ [c]) inQuotes (d # rest))"

definition parseLine :: "string \<Rightarrow> string list" where
  "parseLine line = parseLine_loop [] [] False line"

section \<open>Numbers\<close>

text \<open>
  A JavaScript number is modelled by the exact decimal value that \<open>parseFloat\<close> reads
  (the mathematical value of the literal), by the two infinities, or by \<open>NaN\<close>. The
  rounding of that value to the nearest double is not part of the model; positive and
  negative zero are the same \<open>Num 0\<close>.
\<close>

datatype number = NaN | Num rat | Infinity | NegInfinity

definition negate :: "number \<Rightarrow> number" where
  "negate x = (case x of NaN \<Rightarrow> NaN | Num r \<Rightarrow> Num (- r)
                | Infinity \<Rightarrow> NegInfinity | NegInfinity \<Rightarrow> Infinity)"

text \<open>The comparison \<open>x >= 0\<close> of JavaScript: false for \<open>NaN\<close>.\<close>

definition geZero :: "number \<Rightarrow> bool" where
  "geZero x = (case x of NaN \<Rightarrow> False | Num r \<Rightarrow> 0 \<le> r
                | Infinity \<Rightarrow> True | NegInfinity \<Rightarrow> False)"

text \<open>\<open>x || 0\<close> on a number: \<open>NaN\<close> and zero are falsy, everything else is kept.\<close>

definition orZero :: "number \<Rightarrow> number" where
  "orZero x = (if x = NaN \<or> x = Num 0 then Num 0 else x)"

definition isDigit :: "char \<Rightarrow> bool" where
  "isDigit c \<longleftrightarrow> CHR ''0'' \<le> c \<and> c \<le> CHR ''9''"

definition digitsValue :: "string \<Rightarrow> nat" where
  "digitsValue ds = foldl (\<lambda>acc c. 10 * acc + (of_char c - 48)) 0 ds"

text \<open>
  The value of the digits \<open>ip\<close> before and \<open>fp\<close> after the decimal point, scaled by the
  exponent \<open>e\<close>.
\<close>

definition decimalValue :: "string \<Rightarrow> string \<Rightarrow> int \<Rightarrow> rat" where
  "decimalValue ip fp e =
     (let m = digitsValue (ip @ fp); k = e - int (length fp)
      in if 0 \<le> k then of_nat m * 10 ^ nat k else of_nat m / 10 ^ nat (- k))"

text \<open>
  \<open>ExponentPart\<close> is optional: \<open>e\<close> or \<open>E\<close>, an optional sign and at least one digit.
  Where the digits are missing the exponent is not part of the literal.
\<close>

definition exponentDigits :: "string \<Rightarrow> int" where
  "exponentDigits r = (if takeWhile isDigit r = [] then 0
                       else int (digitsValue (takeWhile isDigit r)))"

definition parseExponent :: "string \<Rightarrow> int" where
  "parseExponent r =
     (case r of
        [] \<Rightarrow> 0
      | c # r1 \<Rightarrow>
          if c = CHR ''e'' \<or> c = CHR ''E'' then
            (case r1 of
               [] \<Rightarrow> 0
             | s # r2 \<Rightarrow>
                 if s = CHR ''+'' then exponentDigits r2
                 else if s = CHR ''-'' then - exponentDigits r2
                 else exponentDigits r1)
          else 0)"

text \<open>
  The longest prefix that is a \<open>StrUnsignedDecimalLiteral\<close>: \<open>Infinity\<close>, or digits with
  an optional fraction and exponent, or a point followed by digits.
\<close>

definition parseUnsigned :: "string \<Rightarrow> number" where
  "parseUnsigned r =
     (if startsWith r ''Infinity'' then Infinity
      else
        let ip = takeWhile isDigit r; r1 = dropWhile isDigit r
        in case r1 of
             [] \<Rightarrow> if ip = [] then NaN else Num (decimalValue ip [] 0)
           | c # r1' \<Rightarrow>
               if c = CHR ''.'' then
                 (let fp = takeWhile isDigit r1'; r2 = dropWhile isDigit r1'
                  in if ip = [] \<and> fp = [] then NaN
                     else Num (decimalValue ip fp (parseExponent r2)))
               else if ip = [] then NaN
               else Num (decimalValue ip [] (parseExponent r1)))"

text \<open>
  \<open>parseFloat\<close>: skip leading white space, read an optional sign, then the longest
  literal; \<open>NaN\<close> where there is none.
\<close>

definition parseFloat :: "string \<Rightarrow> number" where
  "parseFloat s =
     (case trimStart s of
        [] \<Rightarrow> NaN
      | c # r \<Rightarrow>
          if c = CHR ''-'' then negate (parseUnsigned r)
          else if c = CHR ''+'' then parseUnsigned r
          else parseUnsigned (c # r))"

text \<open>
  \<open>cleanPrice\<close> (utils.ts, lines 62 to 65): the empty string is falsy; otherwise every
  match of \<open>/[$,\s]/g\<close> is removed before \<open>parseFloat\<close>.
\<close>

definition stripPrice :: "string \<Rightarrow> string" where
  "stripPrice val = filter (\<lambda>c. \<not> (c = CHR ''$'' \<or> c = CHR '','' \<or> isWhiteSpace c)) val"

definition cleanPrice :: "string \<Rightarrow> number" where
  "cleanPrice val = (if val = [] then Num 0 else orZero (parseFloat (stripPrice val)))"

section \<open>The data model\<close>

text \<open>The interfaces \<open>ProductVariant\<close> and \<open>ProductGroup\<close> of the type declarations.\<close>

record ProductVariant =
  sku :: string
  description :: string
  unit :: string
  stdPrice :: number
  floorPrice :: number
  givePrice :: number
  gsaPrice :: number
  weight :: number
  productLine :: string
  family :: string

record ProductGroup =
  parentName :: string
  family :: string
  variants :: "ProductVariant list"

text \<open>
  \<open>groups\<close> is an ordinary object created by \<open>{}\<close>. Its own properties are kept in
  creation order. A read \<open>groups[k]\<close> of a name that is not an own property continues
  along the prototype chain and finds the members of \<open>Object.prototype\<close>, which are
  truthy and have no \<open>variants\<close> property.
\<close>

type_synonym groups = "(string \<times> ProductGroup) list"

definition objectPrototypeKeys :: "string list" where
  "objectPrototypeKeys =
     [''constructor'', ''hasOwnProperty'', ''isPrototypeOf'', ''propertyIsEnumerable'',
      ''toLocaleString'', ''toString'', ''valueOf'', ''__proto__'',
      ''__defineGetter__'', ''__defineSetter__'', ''__lookupGetter__'', ''__lookupSetter__'']"

datatype property = Undefined | Inherited | Own ProductGroup

definition getProperty :: "groups \<Rightarrow> string \<Rightarrow> property" where
  "getProperty groups k =
     (case map_of groups k of
        Some g \<Rightarrow> Own g
      | None \<Rightarrow> if k \<in> set objectPrototypeKeys then Inherited else Undefined)"

text \<open>\<open>groups[k].variants.push(v)\<close> on an own property \<open>k\<close>.\<close>

definition pushVariant :: "groups \<Rightarrow> string \<Rightarrow> ProductVariant \<Rightarrow> groups" where
  "pushVariant groups k v =
     map (\<lambda>(k', g). if k' = k then (k', g\<lparr>variants := variants g @ [v]\<rparr>) else (k', g)) groups"

text \<open>
  \<open>Object.values\<close> lists the own properties: first the names that are array indices
  (canonical decimal numerals below \<open>2^32 - 1\<close>) in ascending numeric order, then all
  other names in creation order.
\<close>

definition isArrayIndex :: "string \<Rightarrow> bool" where
  "isArrayIndex k \<longleftrightarrow>
     k \<noteq> [] \<and> (\<forall>c \<in> set k. isDigit c) \<and> (k = ''0'' \<or> hd k \<noteq> CHR ''0'')
     \<and> digitsValue k < 4294967295"

definition objectValues :: "groups \<Rightarrow> ProductGroup list" where
  "objectValues groups =
     map snd (sort_key (\<lambda>p. digitsValue (fst p)) (filter (\<lambda>p. isArrayIndex (fst p)) groups))
     @ map snd (filter (\<lambda>p. \<not> isArrayIndex (fst p)) groups)"

text \<open>
  \<open>Array.prototype.sort\<close> with a comparison function is stable, and for a consistent
  comparison function its result is the one sorted stable arrangement: insertion from
  the right, placing an element before the first one it does not exceed.
\<close>

fun insertWith :: "('a \<Rightarrow> 'a \<Rightarrow> int) \<Rightarrow> 'a \<Rightarrow> 'a list \<Rightarrow> 'a list" where
  "insertWith cmp x [] = [x]"
| "insertWith cmp x (y # ys) = (if cmp x y \<le> 0 then x # y # ys else y # insertWith cmp x ys)"

definition sortWith :: "('a \<Rightarrow> 'a \<Rightarrow> int) \<Rightarrow> 'a list \<Rightarrow> 'a list" where
  "sortWith cmp xs = foldr (insertWith cmp) xs []"

section \<open>The catalog aggregator\<close>

datatype error = TypeError

text \<open>\<open>parts[i]\<close> for an index that may lie beyond the array: \<open>None\<close> is \<open>undefined\<close>.\<close>

definition element :: "string list \<Rightarrow> nat \<Rightarrow> string option" where
  "element parts i = (if i < length parts then Some (parts ! i) else None)"

definition ToString :: "string option \<Rightarrow> string" where
  "ToString v = (case v of None \<Rightarrow> ''undefined'' | Some s \<Rightarrow> s)"

text \<open>
  The pieces of the loop body (utils.ts, lines 51 to 82). They are evaluated only for
  \<open>parts\<close> of length 11 or more, so the indices up to 10 are in range.
\<close>

definition parentNameOf :: "string list \<Rightarrow> string" where
  "parentNameOf parts = (if parts ! 2 = [] then ''Uncategorized'' else parts ! 2)"

definition familyOf :: "string list \<Rightarrow> string" where
  "familyOf parts = (if parts ! 1 = [] then ''General'' else parts ! 1)"

definition weightOf :: "string list \<Rightarrow> number" where
  "weightOf parts = orZero (parseFloat (ToString (element parts 13)))"

definition mkVariant :: "string list \<Rightarrow> ProductVariant" where
  "mkVariant parts =
     \<lparr> sku = parts ! 3,
       description = parts ! 4,
       unit = parts ! 5,
       stdPrice = cleanPrice (parts ! 6),
       floorPrice = cleanPrice (parts ! 8),
       givePrice = cleanPrice (parts ! 9),
       gsaPrice = cleanPrice (parts ! 10),
       weight = weightOf parts,
       productLine = parts ! 0,
       family = familyOf parts \<rparr>"

text \<open>
  One data row. The group is created when \<open>groups[parentName]\<close> is falsy, that is
  undefined. Reading \<open>.variants.some\<close> then throws a \<open>TypeError\<close> when
  \<open>groups[parentName]\<close> is an inherited member, whose \<open>variants\<close> is undefined.
\<close>

definition processRow :: "groups \<Rightarrow> string list \<Rightarrow> error + groups" where
  "processRow groups parts =
     (let parentName = parentNameOf parts;
          groups1 = (case getProperty groups parentName of
                       Undefined \<Rightarrow>
                         groups @ [(parentName,
                                    \<lparr> parentName = parentName, family = familyOf parts,
                                      variants = [] \<rparr>)]
                     | _ \<Rightarrow> groups)
      in case getProperty groups1 parentName of
           Own g \<Rightarrow>
             if \<exists>v \<in> set (variants g). sku v = parts ! 3 then Inr groups1
             else Inr (pushVariant groups1 parentName (mkVariant parts))
         | _ \<Rightarrow> Inl TypeError)"

text \<open>The \<open>for\<close> loop over the lines after the header, with its \<open>break\<close> and \<open>continue\<close>.\<close>

fun loop :: "groups \<Rightarrow> string list \<Rightarrow> error + groups" where
  "loop groups [] = Inr groups"
| "loop groups (l # ls) =
     (let line = trim l
      in if startsWith (toLowerCase line) ''scsclass'' then Inr groups
         else if line = [] \<or> startsWith (toLowerCase line) ''productlinedescription''
         then loop groups ls
         else
           let parts = parseLine line
           in if length parts < 11 then loop groups ls
              else case processRow groups parts of
                     Inl e \<Rightarrow> Inl e
                   | Inr groups' \<Rightarrow> loop groups' ls)"

text \<open>
  \<open>parseCSV\<close>. The comparison \<open>localeCompare\<close> belongs to the host and its locale, so it
  is a parameter of the model: \<open>localeCompare a b\<close> is negative, zero or positive.
\<close>

definition parseCSV :: "(string \<Rightarrow> string \<Rightarrow> int) \<Rightarrow> string \<Rightarrow> error + ProductGroup list" where
  "parseCSV localeCompare csv =
     (if csv = [] then Inr []
      else
        let lines = split (trim csv)
        in if length lines < 2 then Inr []
           else case loop [] (tl lines) of
                  Inl e \<Rightarrow> Inl e
                | Inr groups \<Rightarrow>
                    Inr (sortWith (\<lambda>a b. localeCompare (parentName a) (parentName b))
                           (objectValues groups)))"

text \<open>
  A sample comparison for concrete runs: the order of the code units.
\<close>

definition codeUnitCompare :: "string \<Rightarrow> string \<Rightarrow> int" where
  "codeUnitCompare a b = (if a < b then - 1 else if a = b then 0 else 1)"

section \<open>The rows of a document and the catalog they give\<close>

text \<open>
  The two tests of the loop on a line, by name: the line that ends the table, and the
  lines passed over (empty, or a repeated header).
\<close>

definition isSentinel :: "string \<Rightarrow> bool" where
  "isSentinel l \<longleftrightarrow> startsWith (toLowerCase (trim l)) ''scsclass''"

definition isSkipped :: "string \<Rightarrow> bool" where
  "isSkipped l \<longleftrightarrow>
     trim l = [] \<or> startsWith (toLowerCase (trim l)) ''productlinedescription''"

text \<open>
  The rows the loop hands to \<open>processRow\<close>: the lines before the first sentinel that
  are not passed over, tokenized, with at least 11 fields. \<open>documentRows\<close> are those of
  a document, whose first line is the header.
\<close>

definition dataRows :: "string list \<Rightarrow> string list list" where
  "dataRows ls =
     filter (\<lambda>parts. 11 \<le> length parts)
       (map (\<lambda>l. parseLine (trim l))
          (filter (\<lambda>l. \<not> isSkipped l) (takeWhile (\<lambda>l. \<not> isSentinel l) ls)))"

definition documentRows :: "string \<Rightarrow> string list list" where
  "documentRows csv = dataRows (tl (split (trim csv)))"

text \<open>The loop body run over a list of rows; it stops at the first error.\<close>

fun processRows :: "groups \<Rightarrow> string list list \<Rightarrow> error + groups" where
  "processRows groups [] = Inr groups"
| "processRows groups (r # rs) =
     (case processRow groups r of Inl e \<Rightarrow> Inl e | Inr groups' \<Rightarrow> processRows groups' rs)"

text \<open>
  \<open>firstBy f xs\<close> keeps, in order, the first element of \<open>xs\<close> for every value of \<open>f\<close>
  and drops each later element with a value already seen.
\<close>

function firstBy :: "('a \<Rightarrow> 'b) \<Rightarrow> 'a list \<Rightarrow> 'a list" where
  "firstBy f [] = []"
| "firstBy f (x # xs) = x # firstBy f (filter (\<lambda>y. f y \<noteq> f x) xs)"
  by pat_completeness auto
termination
  by (relation "measure (\<lambda>(f, xs). length xs)") (auto simp: less_Suc_eq_le)

text \<open>
  The catalog in closed form. \<open>r0\<close> is the first row of its parent name: the group
  takes its family from \<open>r0\<close>, and its variants from the rows of that parent name, the
  first row of every sku, in the order of the rows.
\<close>

definition skuOf :: "string list \<Rightarrow> string" where
  "skuOf parts = parts ! 3"

definition groupOf :: "string list list \<Rightarrow> string list \<Rightarrow> ProductGroup" where
  "groupOf rs r0 =
     \<lparr> parentName = parentNameOf r0, family = familyOf r0,
       variants = map mkVariant
                    (firstBy skuOf (filter (\<lambda>r. parentNameOf r = parentNameOf r0) rs)) \<rparr>"

definition groupsOf :: "string list list \<Rightarrow> groups" where
  "groupsOf rs = map (\<lambda>r0. (parentNameOf r0, groupOf rs r0)) (firstBy parentNameOf rs)"

section \<open>Evaluation rules\<close>

lemmas string_defs =
  trim_def trimStart_def trimEnd_def isWhiteSpace_def toLowerCase_def lowerChar_def
  startsWith_def split_def char_of_def bit_0

lemmas number_defs =
  cleanPrice_def stripPrice_def parseFloat_def parseUnsigned_def orZero_def decimalValue_def
  digitsValue_def parseExponent_def exponentDigits_def isDigit_def negate_def geZero_def

lemmas row_defs =
  parseLine_def processRow_def getProperty_def objectPrototypeKeys_def pushVariant_def
  parentNameOf_def familyOf_def mkVariant_def weightOf_def element_def ToString_def

lemmas catalog_defs =
  parseCSV_def objectValues_def isArrayIndex_def sortWith_def codeUnitCompare_def

lemmas eval_defs = catalog_defs row_defs string_defs number_defs Let_def

section \<open>The tokenizer on quoted cells\<close>

text \<open>
  C6. Tokenizing the line \<open>a,"b,c",d\<close> gives the three fields \<open>a\<close>, \<open>b,c\<close> and \<open>d\<close>: the
  comma inside the quotes does not split. The quoted cell \<open>"he said ""hi"""\<close> gives the
  single field \<open>he said "hi"\<close>: a doubled quote inside a quoted region is one quote
  character.
\<close>

theorem parseLine_quoting:
  \<open>parseLine ''a,"b,c",d'' = [''a'', ''b,c'', ''d''] \<and>
   parseLine ''"he said ""hi"""'' = [''he said "hi"'']\<close>
  by (simp add: parseLine_def string_defs)

section \<open>Price cleaning\<close>

lemma orZero_not_NaN: "orZero x \<noteq> NaN"
  by (simp add: orZero_def)

lemma cleanPrice_not_NaN: "cleanPrice val \<noteq> NaN"
  by (simp add: cleanPrice_def orZero_not_NaN)

text \<open>
  C7. \<open>cleanPrice\<close> removes every dollar sign, comma and white-space character and reads
  the rest as a decimal number, with 0 where that reading gives \<open>NaN\<close> or zero, the
  empty string included: the stripped text keeps exactly the other characters, cleaning
  a value and cleaning it once stripped agree, the result is never \<open>NaN\<close>, and
  \<open>$1,234.50\<close> gives 1234.5, the empty string 0 and \<open>n/a\<close> 0.
\<close>

theorem cleanPrice_strips_and_parses:
  "cleanPrice val = orZero (parseFloat (stripPrice val))
   \<and> set (stripPrice val) = {c \<in> set val. c \<noteq> CHR ''$'' \<and> c \<noteq> CHR '','' \<and> \<not> isWhiteSpace c}
   \<and> cleanPrice (stripPrice val) = cleanPrice val
   \<and> cleanPrice val \<noteq> NaN
   \<and> cleanPrice ''$1,234.50'' = Num 1234.5
   \<and> cleanPrice [] = Num 0
   \<and> cleanPrice ''n/a'' = Num 0"
proof -
  have def: "cleanPrice val = orZero (parseFloat (stripPrice val))"
    by (simp add: cleanPrice_def stripPrice_def parseFloat_def trimStart_def orZero_def)
  have chars: "set (stripPrice val)
               = {c \<in> set val. c \<noteq> CHR ''$'' \<and> c \<noteq> CHR '','' \<and> \<not> isWhiteSpace c}"
    by (auto simp: stripPrice_def)
  have "stripPrice (stripPrice val) = stripPrice val"
    by (simp add: stripPrice_def)
  moreover have "stripPrice val = [] \<Longrightarrow> orZero (parseFloat (stripPrice val)) = Num 0"
    by (simp add: parseFloat_def trimStart_def orZero_def)
  ultimately have strip: "cleanPrice (stripPrice val) = cleanPrice val"
    by (auto simp: cleanPrice_def stripPrice_def)
  have ex1: "cleanPrice ''$1,234.50'' = Num 1234.5"
    by (simp add: number_defs string_defs)
  have ex2: "cleanPrice [] = Num 0"
    by (simp add: cleanPrice_def)
  have ex3: "cleanPrice ''n/a'' = Num 0"
    by (simp add: number_defs string_defs)
  from def chars strip cleanPrice_not_NaN ex1 ex2 ex3 show ?thesis
    by blast
qed

section \<open>Documents without data lines\<close>

lemma split_loop_length: "length (split_loop cur s) = Suc (count_list s (CHR 0x0A))"
  by (induction cur s rule: split_loop.induct) auto

lemma split_length: "length (split s) = Suc (count_list s (CHR 0x0A))"
  by (simp add: split_def split_loop_length)

lemma split_single_line: "length (split s) < 2 \<longleftrightarrow> CHR 0x0A \<notin> set s"
  by (simp add: split_length count_list_0_iff)

text \<open>
  C2. For the empty document, and for every document that has fewer than two lines once
  it is trimmed and split at the line ends, \<open>parseCSV\<close> returns the empty list of groups.
  Such a document is empty or its trimmed text holds no line feed.
\<close>

theorem parseCSV_fewer_than_two_lines:
  assumes "csv = [] \<or> length (split (trim csv)) < 2"
  shows "parseCSV localeCompare csv = Inr [] \<and> (csv = [] \<or> CHR 0x0A \<notin> set (trim csv))"
  using assms by (auto simp: parseCSV_def split_single_line)

theorem parseCSV_fewer_than_two_lines_witness:
  "parseCSV codeUnitCompare [] = Inr [] \<and>
   length (split (trim ''sku,price '')) < 2 \<and>
   parseCSV codeUnitCompare ''sku,price '' = Inr []"
proof -
  have short: "length (split (trim ''sku,price '')) < 2"
    by (simp add: string_defs)
  have "parseCSV codeUnitCompare [] = Inr []"
    using parseCSV_fewer_than_two_lines [of "[]" codeUnitCompare] by blast
  moreover have "parseCSV codeUnitCompare ''sku,price '' = Inr []"
    using parseCSV_fewer_than_two_lines [of "''sku,price ''" codeUnitCompare] short by blast
  ultimately show ?thesis using short by simp
qed

section \<open>The loop in closed form\<close>

text \<open>
  The loop is \<open>processRows\<close> over \<open>dataRows\<close>, and \<open>processRows\<close> from the empty
  object gives \<open>groupsOf\<close>, or fails where a row has a parent name that every object
  inherits. The proof adds one row at the end at a time.
\<close>

lemma loop_dataRows: "loop groups ls = processRows groups (dataRows ls)"
  by (induction ls arbitrary: groups)
     (auto simp: dataRows_def isSentinel_def isSkipped_def Let_def split: sum.splits)

lemma processRows_append:
  "processRows g (xs @ ys) =
     (case processRows g xs of Inl e \<Rightarrow> Inl e | Inr g' \<Rightarrow> processRows g' ys)"
  by (induction xs arbitrary: g) (auto split: sum.splits)

lemma firstBy_subset: "set (firstBy f xs) \<subseteq> set xs"
  by (induction f xs rule: firstBy.induct) auto

lemma firstBy_keys: "f ` set (firstBy f xs) = f ` set xs"
  by (induction f xs rule: firstBy.induct) auto

lemma firstBy_snoc:
  "firstBy f (xs @ [y]) = (if f y \<in> f ` set xs then firstBy f xs else firstBy f xs @ [y])"
proof (induction f xs rule: firstBy.induct)
  case (1 f)
  show ?case by simp
next
  case (2 f x xs)
  show ?case
  proof (cases "f y = f x")
    case True
    then show ?thesis by simp
  next
    case False
    have "f y \<in> f ` set (filter (\<lambda>z. f z \<noteq> f x) xs) \<longleftrightarrow> f y \<in> f ` set xs"
      using False by auto
    with False 2 show ?thesis by auto
  qed
qed

lemma firstBy_distinct: "distinct (map f (firstBy f xs))"
proof (induction f xs rule: firstBy.induct)
  case (1 f)
  show ?case by simp
next
  case (2 f x xs)
  have "f x \<notin> f ` set (firstBy f (filter (\<lambda>y. f y \<noteq> f x) xs))"
    using firstBy_subset [of f "filter (\<lambda>y. f y \<noteq> f x) xs"] by auto
  with 2 show ?case by simp
qed

lemma find_firstBy: "find (\<lambda>x. f x = k) (firstBy f xs) = find (\<lambda>x. f x = k) xs"
proof (induction f xs rule: firstBy.induct)
  case (1 f)
  show ?case by simp
next
  case (2 f x xs)
  have "f x \<noteq> k \<Longrightarrow> find (\<lambda>y. f y = k) (filter (\<lambda>y. f y \<noteq> f x) xs) = find (\<lambda>y. f y = k) xs"
    by (induction xs) auto
  with 2 show ?case by auto
qed

lemma map_of_keyed: "map_of (map (\<lambda>x. (f x, h x)) xs) k = map_option h (find (\<lambda>x. f x = k) xs)"
  by (induction xs) auto

lemma map_fst_groupsOf: "map fst (groupsOf rs) = map parentNameOf (firstBy parentNameOf rs)"
  by (simp add: groupsOf_def comp_def)

lemma map_of_groupsOf:
  "map_of (groupsOf rs) p = map_option (groupOf rs) (find (\<lambda>r. parentNameOf r = p) rs)"
  by (simp add: groupsOf_def map_of_keyed find_firstBy)

lemma find_None_image: "find (\<lambda>x. f x = k) xs = None \<longleftrightarrow> k \<notin> f ` set xs"
  by (auto simp: find_None_iff)

lemma pushVariant_other: "p \<notin> fst ` set g \<Longrightarrow> pushVariant g p v = g"
  by (induction g) (auto simp: pushVariant_def)

lemma pushVariant_append: "pushVariant (g @ h) p v = pushVariant g p v @ pushVariant h p v"
  by (simp add: pushVariant_def)

lemma groupOf_snoc:
  "groupOf (rs @ [r]) r0 =
     (if parentNameOf r = parentNameOf r0
        \<and> skuOf r \<notin> skuOf ` {r' \<in> set rs. parentNameOf r' = parentNameOf r0}
      then (groupOf rs r0)\<lparr>variants := variants (groupOf rs r0) @ [mkVariant r]\<rparr>
      else groupOf rs r0)"
  by (auto simp: groupOf_def firstBy_snoc)

lemma groupsOf_snoc:
  "groupsOf (rs @ [r]) =
     (if parentNameOf r \<in> parentNameOf ` set rs then
        (if skuOf r \<in> skuOf ` {r' \<in> set rs. parentNameOf r' = parentNameOf r}
         then groupsOf rs
         else pushVariant (groupsOf rs) (parentNameOf r) (mkVariant r))
      else groupsOf rs @
             [(parentNameOf r,
               \<lparr> parentName = parentNameOf r, family = familyOf r,
                 variants = [mkVariant r] \<rparr>)])"
proof -
  have old: "map (\<lambda>r0. (parentNameOf r0, groupOf (rs @ [r]) r0)) (firstBy parentNameOf rs)
             = (if skuOf r \<in> skuOf ` {r' \<in> set rs. parentNameOf r' = parentNameOf r}
                then groupsOf rs
                else pushVariant (groupsOf rs) (parentNameOf r) (mkVariant r))"
    by (auto simp: groupsOf_def pushVariant_def groupOf_snoc comp_def)
  have new: "parentNameOf r \<notin> parentNameOf ` set rs \<Longrightarrow>
             map (\<lambda>r0. (parentNameOf r0, groupOf (rs @ [r]) r0)) (firstBy parentNameOf rs)
             = groupsOf rs"
    using firstBy_subset [of parentNameOf rs]
    by (auto simp: groupsOf_def groupOf_snoc)
  have fresh: "parentNameOf r \<notin> parentNameOf ` set rs \<Longrightarrow>
               groupOf (rs @ [r]) r = \<lparr> parentName = parentNameOf r, family = familyOf r,
                 variants = [mkVariant r] \<rparr>"
  proof -
    assume "parentNameOf r \<notin> parentNameOf ` set rs"
    then have "\<forall>x \<in> set rs. parentNameOf x \<noteq> parentNameOf r"
      by (metis imageI)
    then have "filter (\<lambda>r'. parentNameOf r' = parentNameOf r) rs = []"
      by (simp add: filter_empty_conv)
    then show ?thesis by (simp add: groupOf_def)
  qed
  show ?thesis
    using old new fresh by (simp add: groupsOf_def firstBy_snoc)
qed

lemma sku_mkVariant: "sku (mkVariant r) = skuOf r"
  by (simp add: mkVariant_def skuOf_def)

lemma sku_variants_groupOf:
  "sku ` set (variants (groupOf rs r0)) = skuOf ` {r' \<in> set rs. parentNameOf r' = parentNameOf r0}"
proof -
  have "sku ` set (variants (groupOf rs r0))
        = skuOf ` set (firstBy skuOf (filter (\<lambda>r. parentNameOf r = parentNameOf r0) rs))"
    by (simp add: groupOf_def image_image sku_mkVariant)
  also have "\<dots> = skuOf ` set (filter (\<lambda>r. parentNameOf r = parentNameOf r0) rs)"
    by (rule firstBy_keys)
  finally show ?thesis by simp
qed

lemma find_parent_Some:
  assumes "parentNameOf r \<in> parentNameOf ` set rs"
  obtains r0 where "find (\<lambda>x. parentNameOf x = parentNameOf r) rs = Some r0"
    and "parentNameOf r0 = parentNameOf r" and "r0 \<in> set rs"
proof -
  from assms have "find (\<lambda>x. parentNameOf x = parentNameOf r) rs \<noteq> None"
    by (auto simp: find_None_iff)
  then obtain r0 where f: "find (\<lambda>x. parentNameOf x = parentNameOf r) rs = Some r0"
    by auto
  then have "parentNameOf r0 = parentNameOf r" "r0 \<in> set rs"
    by (auto simp: find_Some_iff)
  with f that show thesis by blast
qed

lemma processRow_known:
  assumes known: "parentNameOf r \<in> parentNameOf ` set rs"
  shows "processRow (groupsOf rs) r = Inr (groupsOf (rs @ [r]))"
proof -
  from known obtain r0 where f: "find (\<lambda>x. parentNameOf x = parentNameOf r) rs = Some r0"
    and p: "parentNameOf r0 = parentNameOf r"
    by (rule find_parent_Some)
  have get: "getProperty (groupsOf rs) (parentNameOf r) = Own (groupOf rs r0)"
    by (simp add: getProperty_def map_of_groupsOf f)
  have dup: "(\<exists>v \<in> set (variants (groupOf rs r0)). sku v = r ! 3)
             \<longleftrightarrow> skuOf r \<in> skuOf ` {r' \<in> set rs. parentNameOf r' = parentNameOf r}"
  proof -
    have "(\<exists>v \<in> set (variants (groupOf rs r0)). sku v = r ! 3)
          \<longleftrightarrow> skuOf r \<in> sku ` set (variants (groupOf rs r0))"
      by (force simp: skuOf_def image_iff)
    then show ?thesis
      by (simp only: sku_variants_groupOf p)
  qed
  show ?thesis
    using known by (simp add: processRow_def get dup groupsOf_snoc del: mem_Collect_eq)
qed

lemma processRow_fresh:
  assumes fresh: "parentNameOf r \<notin> parentNameOf ` set rs"
  shows "processRow (groupsOf rs) r =
           (if parentNameOf r \<in> set objectPrototypeKeys then Inl TypeError
            else Inr (groupsOf (rs @ [r])))"
proof -
  have none: "map_of (groupsOf rs) (parentNameOf r) = None"
    using fresh by (simp add: map_of_groupsOf find_None_iff image_iff) metis
  have nokey: "parentNameOf r \<notin> fst ` set (groupsOf rs)"
    using none by (simp add: map_of_eq_None_iff)
  show ?thesis
  proof (cases "parentNameOf r \<in> set objectPrototypeKeys")
    case True
    then show ?thesis by (simp add: processRow_def getProperty_def none)
  next
    case False
    let ?E = "\<lparr> parentName = parentNameOf r, family = familyOf r, variants = [] \<rparr>"
    have get0: "getProperty (groupsOf rs) (parentNameOf r) = Undefined"
      using False by (simp add: getProperty_def none)
    have get1: "getProperty (groupsOf rs @ [(parentNameOf r, ?E)]) (parentNameOf r) = Own ?E"
      by (simp add: getProperty_def none map_add_def)
    have push: "pushVariant (groupsOf rs @ [(parentNameOf r, ?E)]) (parentNameOf r) (mkVariant r)
                = groupsOf (rs @ [r])"
      using fresh nokey
      by (simp add: groupsOf_snoc pushVariant_append pushVariant_other) (simp add: pushVariant_def)
    show ?thesis
      using False by (simp add: processRow_def Let_def get0 get1 push)
  qed
qed

lemma processRows_groupsOf:
  "processRows [] rs =
     (if \<exists>r \<in> set rs. parentNameOf r \<in> set objectPrototypeKeys then Inl TypeError
      else Inr (groupsOf rs))"
proof (induction rs rule: rev_induct)
  case Nil
  show ?case by (simp add: groupsOf_def)
next
  case (snoc r rs)
  show ?case
  proof (cases "\<exists>r \<in> set rs. parentNameOf r \<in> set objectPrototypeKeys")
    case True
    with snoc show ?thesis by (simp add: processRows_append)
  next
    case False
    with snoc have run: "processRows [] rs = Inr (groupsOf rs)"
      by simp
    show ?thesis
    proof (cases "parentNameOf r \<in> parentNameOf ` set rs")
      case True
      with False have "parentNameOf r \<notin> set objectPrototypeKeys"
        by auto
      with True False run show ?thesis
        by (simp add: processRows_append processRow_known)
    next
      case fresh: False
      with False run show ?thesis
        by (simp add: processRows_append processRow_fresh)
    qed
  qed
qed

lemma mset_insertWith: "mset (insertWith cmp x ys) = add_mset x (mset ys)"
  by (induction ys) auto

lemma mset_sortWith: "mset (sortWith cmp xs) = mset xs"
  by (induction xs) (auto simp: sortWith_def mset_insertWith)

lemma set_sortWith: "set (sortWith cmp xs) = set xs"
  using mset_sortWith [of cmp xs] by (metis set_mset_mset)

lemma mset_objectValues: "mset (objectValues g) = mset (map snd g)"
proof -
  let ?P = "\<lambda>p. isArrayIndex (fst p)"
  have part: "mset g = filter_mset ?P (mset g) + filter_mset (\<lambda>p. \<not> ?P p) (mset g)"
    by (rule multiset_partition)
  have "mset (objectValues g)
        = image_mset snd (filter_mset ?P (mset g))
          + image_mset snd (filter_mset (\<lambda>p. \<not> ?P p) (mset g))"
    by (simp add: objectValues_def)
  also have "\<dots> = image_mset snd (filter_mset ?P (mset g) + filter_mset (\<lambda>p. \<not> ?P p) (mset g))"
    by (simp only: image_mset_union)
  also have "\<dots> = image_mset snd (mset g)"
    using part by simp
  finally show ?thesis by simp
qed

lemma set_objectValues: "set (objectValues g) = snd ` set g"
  using mset_objectValues [of g] by (metis set_mset_mset set_map)

lemma sorted_insertWith:
  assumes total: "\<And>a b. cmp a b \<le> 0 \<or> cmp b a \<le> 0"
    and trans: "\<And>a b c. cmp a b \<le> 0 \<Longrightarrow> cmp b c \<le> 0 \<Longrightarrow> cmp a c \<le> 0"
    and sorted: "sorted_wrt (\<lambda>a b. cmp a b \<le> 0) ys"
  shows "sorted_wrt (\<lambda>a b. cmp a b \<le> (0::int)) (insertWith cmp x ys)"
  using sorted
proof (induction ys)
  case Nil
  show ?case by simp
next
  case (Cons y ys)
  show ?case
  proof (cases "cmp x y \<le> 0")
    case True
    with Cons.prems trans show ?thesis by auto
  next
    case False
    with total have "cmp y x \<le> 0" by blast
    moreover have "set (insertWith cmp x ys) = insert x (set ys)"
      using mset_insertWith [of cmp x ys] by (metis set_mset_mset set_mset_add_mset_insert)
    ultimately show ?thesis
      using False Cons by auto
  qed
qed

lemma sorted_sortWith:
  assumes total: "\<And>a b. cmp a b \<le> 0 \<or> cmp b a \<le> 0"
    and trans: "\<And>a b c. cmp a b \<le> 0 \<Longrightarrow> cmp b c \<le> 0 \<Longrightarrow> cmp a c \<le> 0"
  shows "sorted_wrt (\<lambda>a b. cmp a b \<le> (0::int)) (sortWith cmp xs)"
proof (induction xs)
  case Nil
  show ?case by (simp add: sortWith_def)
next
  case (Cons x xs)
  have "sortWith cmp (x # xs) = insertWith cmp x (sortWith cmp xs)"
    by (simp add: sortWith_def)
  with Cons show ?case
    using sorted_insertWith [of cmp "sortWith cmp xs" x] total trans by simp
qed

lemma documentRows_short:
  "csv = [] \<or> length (split (trim csv)) < 2 \<Longrightarrow> documentRows csv = []"
proof -
  assume "csv = [] \<or> length (split (trim csv)) < 2"
  moreover have "split (trim []) = [[]]"
    by (simp add: string_defs)
  ultimately have "length (split (trim csv)) < 2"
    by auto
  then have "tl (split (trim csv)) = []"
    by (cases "split (trim csv)") auto
  then show ?thesis
    by (simp add: documentRows_def dataRows_def)
qed

lemma parseCSV_rows:
  "parseCSV localeCompare csv =
     (if \<exists>r \<in> set (documentRows csv). parentNameOf r \<in> set objectPrototypeKeys
      then Inl TypeError
      else Inr (sortWith (\<lambda>a b. localeCompare (parentName a) (parentName b))
                  (objectValues (groupsOf (documentRows csv)))))"
proof (cases "csv = [] \<or> length (split (trim csv)) < 2")
  case True
  then have "documentRows csv = []"
    by (rule documentRows_short)
  moreover from True have "parseCSV localeCompare csv = Inr []"
    by (auto simp: parseCSV_def)
  ultimately show ?thesis
    by (simp add: groupsOf_def objectValues_def sortWith_def)
next
  case False
  then show ?thesis
    by (simp add: parseCSV_def Let_def loop_dataRows processRows_groupsOf documentRows_def)
qed

lemma find_distinct_key:
  "distinct (map f ys) \<Longrightarrow> x \<in> set ys \<Longrightarrow> find (\<lambda>y. f y = f x) ys = Some x"
  by (induction ys) force+

lemma find_first_occurrence:
  assumes "x \<in> set (firstBy f xs)"
  shows "find (\<lambda>y. f y = f x) xs = Some x"
proof -
  have "find (\<lambda>y. f y = f x) (firstBy f xs) = Some x"
    using assms firstBy_distinct [of f xs] by (rule find_distinct_key [rotated])
  then show ?thesis
    by (simp add: find_firstBy)
qed

lemma parentName_groupOf: "parentName (groupOf rs r0) = parentNameOf r0"
  by (simp add: groupOf_def)

lemma catalog_set:
  assumes "parseCSV localeCompare csv = Inr cat"
  shows "set cat = groupOf (documentRows csv) ` set (firstBy parentNameOf (documentRows csv))"
proof -
  from assms have "cat = sortWith (\<lambda>a b. localeCompare (parentName a) (parentName b))
                           (objectValues (groupsOf (documentRows csv)))"
    by (simp add: parseCSV_rows split: if_splits)
  then have "set cat = snd ` set (groupsOf (documentRows csv))"
    by (simp add: set_sortWith set_objectValues)
  then show ?thesis
    by (simp add: groupsOf_def image_image)
qed

lemma catalog_group:
  assumes "parseCSV localeCompare csv = Inr cat" and "g \<in> set cat"
  obtains r0 where "find (\<lambda>r. parentNameOf r = parentName g) (documentRows csv) = Some r0"
    and "g = groupOf (documentRows csv) r0"
proof -
  from assms obtain r0 where r0: "r0 \<in> set (firstBy parentNameOf (documentRows csv))"
    and g: "g = groupOf (documentRows csv) r0"
    by (auto simp: catalog_set)
  from r0 have "find (\<lambda>r. parentNameOf r = parentNameOf r0) (documentRows csv) = Some r0"
    by (rule find_first_occurrence)
  with g that show thesis
    by (simp add: parentName_groupOf)
qed

lemma catalog_distinct:
  assumes "parseCSV localeCompare csv = Inr cat"
  shows "distinct (map parentName cat)"
    and "set (map parentName cat) = parentNameOf ` set (documentRows csv)"
proof -
  let ?rs = "documentRows csv"
  from assms have cat: "cat = sortWith (\<lambda>a b. localeCompare (parentName a) (parentName b))
                           (objectValues (groupsOf ?rs))"
    by (simp add: parseCSV_rows split: if_splits)
  have "mset cat = mset (map snd (groupsOf ?rs))"
    by (simp add: cat mset_sortWith mset_objectValues)
  then have "mset (map parentName cat) = mset (map parentName (map snd (groupsOf ?rs)))"
    by (metis mset_map)
  also have "map parentName (map snd (groupsOf ?rs)) = map parentNameOf (firstBy parentNameOf ?rs)"
    by (simp add: groupsOf_def comp_def parentName_groupOf)
  finally have m: "mset (map parentName cat) = mset (map parentNameOf (firstBy parentNameOf ?rs))" .
  then show "distinct (map parentName cat)"
    using firstBy_distinct [of parentNameOf ?rs] by (metis mset_eq_imp_distinct_iff)
  from m have "set (map parentName cat) = set (map parentNameOf (firstBy parentNameOf ?rs))"
    by (metis set_mset_mset)
  then show "set (map parentName cat) = parentNameOf ` set ?rs"
    by (simp add: firstBy_keys)
qed

section \<open>Numeric fields of a variant\<close>

lemma decimalValue_nonneg: "0 \<le> decimalValue ip fp e"
  by (simp add: decimalValue_def Let_def)

lemma parseUnsigned_nonneg: "geZero (orZero (parseUnsigned r))"
  by (auto simp: parseUnsigned_def geZero_def orZero_def Let_def decimalValue_nonneg
           split: list.splits)

lemma parseFloat_nonneg:
  assumes "\<not> startsWith (trimStart s) ''-''"
  shows "geZero (orZero (parseFloat s))"
proof (cases "trimStart s")
  case Nil
  then show ?thesis by (simp add: parseFloat_def orZero_def geZero_def)
next
  case (Cons c r)
  with assms have "c \<noteq> CHR ''-''"
    by (simp add: startsWith_def)
  with Cons show ?thesis
    by (simp add: parseFloat_def parseUnsigned_nonneg)
qed

lemma trimStart_stripPrice: "trimStart (stripPrice val) = stripPrice val"
proof -
  have "stripPrice val = [] \<or> \<not> isWhiteSpace (hd (stripPrice val))"
  proof (cases "stripPrice val")
    case Nil
    then show ?thesis by simp
  next
    case (Cons c cs)
    then have "c \<in> set (stripPrice val)" by simp
    then have "\<not> isWhiteSpace c" by (simp add: stripPrice_def)
    with Cons show ?thesis by simp
  qed
  then show ?thesis
    by (simp add: trimStart_def dropWhile_eq_self_iff)
qed

lemma cleanPrice_nonneg:
  assumes "\<not> startsWith (stripPrice val) ''-''"
  shows "geZero (cleanPrice val)"
proof (cases "val = []")
  case True
  then show ?thesis by (simp add: cleanPrice_def geZero_def)
next
  case False
  from assms have "geZero (orZero (parseFloat (stripPrice val)))"
    by (intro parseFloat_nonneg) (simp add: trimStart_stripPrice)
  with False show ?thesis by (simp add: cleanPrice_def)
qed

lemma cleanPrice_zero:
  assumes "val = [] \<or> parseFloat (stripPrice val) = NaN"
  shows "cleanPrice val = Num 0"
  using assms by (auto simp: cleanPrice_def orZero_def)

lemma weightOf_absent:
  assumes "length r \<le> 13"
  shows "weightOf r = Num 0"
proof -
  from assms have "element r 13 = None"
    by (simp add: element_def)
  moreover have "parseFloat ''undefined'' = NaN"
    by (simp add: number_defs string_defs)
  ultimately show ?thesis
    by (simp add: weightOf_def ToString_def orZero_def)
qed


lemma dataRows_length: "r \<in> set (dataRows ls) \<Longrightarrow> 11 \<le> length r"
  by (simp add: dataRows_def)

lemma variants_groupOf_rows:
  assumes "v \<in> set (variants (groupOf rs r0))"
  obtains r where "r \<in> set rs" and "parentNameOf r = parentNameOf r0" and "v = mkVariant r"
proof -
  let ?own = "filter (\<lambda>r. parentNameOf r = parentNameOf r0) rs"
  from assms have "v \<in> mkVariant ` set (firstBy skuOf ?own)"
    by (simp add: groupOf_def)
  then obtain r where "r \<in> set (firstBy skuOf ?own)" and v: "v = mkVariant r"
    by blast
  then have "r \<in> set ?own"
    using firstBy_subset [of skuOf ?own] by blast
  then have "r \<in> set rs" and "parentNameOf r = parentNameOf r0"
    by simp_all
  with v that show thesis by blast
qed

lemma catalog_variant:
  assumes "parseCSV localeCompare csv = Inr cat" and "g \<in> set cat" and "v \<in> set (variants g)"
  obtains r where "r \<in> set (documentRows csv)" and "11 \<le> length r"
    and "parentNameOf r = parentName g" and "v = mkVariant r"
proof -
  from assms(1,2) obtain r0 where g: "g = groupOf (documentRows csv) r0"
    by (rule catalog_group)
  from g assms(3) have "v \<in> set (variants (groupOf (documentRows csv) r0))"
    by simp
  then obtain r where r: "r \<in> set (documentRows csv)"
    and p: "parentNameOf r = parentNameOf r0" and v: "v = mkVariant r"
    by (rule variants_groupOf_rows)
  from r have len: "11 \<le> length r"
    by (simp add: documentRows_def dataRows_length)
  from p g have "parentNameOf r = parentName g"
    by (simp add: parentName_groupOf)
  with r len v that show thesis by blast
qed

lemma price_cell:
  "cleanPrice c \<noteq> NaN
   \<and> (c = [] \<or> parseFloat (stripPrice c) = NaN \<longrightarrow> cleanPrice c = Num 0)
   \<and> (\<not> startsWith (stripPrice c) ''-'' \<longrightarrow> geZero (cleanPrice c))"
  using cleanPrice_not_NaN [of c] cleanPrice_zero [of c] cleanPrice_nonneg [of c] by blast

lemma weight_cell:
  "weightOf r \<noteq> NaN
   \<and> (length r \<le> 13 \<or> parseFloat (ToString (element r 13)) = NaN \<longrightarrow> weightOf r = Num 0)
   \<and> (\<not> startsWith (trimStart (ToString (element r 13))) ''-'' \<longrightarrow> geZero (weightOf r))"
proof -
  have "parseFloat (ToString (element r 13)) = NaN \<Longrightarrow> weightOf r = Num 0"
    by (simp add: weightOf_def orZero_def)
  moreover have "\<not> startsWith (trimStart (ToString (element r 13))) ''-'' \<Longrightarrow> geZero (weightOf r)"
    by (simp add: weightOf_def parseFloat_nonneg)
  moreover have "weightOf r \<noteq> NaN"
    by (simp add: weightOf_def orZero_not_NaN)
  ultimately show ?thesis
    using weightOf_absent [of r] by blast
qed

text \<open>
  C1, as the code has it. For every document on which \<open>parseCSV\<close> returns a catalog,
  every variant stems from a row of at least 11 fields, and its four prices and its
  weight are numbers, never \<open>NaN\<close>: each price is \<open>cleanPrice\<close> of its cell (fields 6,
  8, 9 and 10) and the weight is \<open>parseFloat\<close> of field 13 with 0 for \<open>NaN\<close>. A cell that
  is absent (field 13 of a row with at most 13 fields), empty, or without a number at its
  start gives exactly 0, and a field can be negative only where the text read starts with
  a minus sign. Nothing in the code clamps a negative number.
\<close>

theorem variant_numbers:
  assumes "parseCSV localeCompare csv = Inr cat" and "g \<in> set cat" and "v \<in> set (variants g)"
  shows "\<exists>r \<in> set (documentRows csv).
           11 \<le> length r
           \<and> (\<forall>(field, i) \<in> set [(stdPrice, 6), (floorPrice, 8), (givePrice, 9), (gsaPrice, 10)].
                 field v = cleanPrice (r ! i) \<and> field v \<noteq> NaN
                 \<and> (r ! i = [] \<or> parseFloat (stripPrice (r ! i)) = NaN \<longrightarrow> field v = Num 0)
                 \<and> (\<not> startsWith (stripPrice (r ! i)) ''-'' \<longrightarrow> geZero (field v)))
           \<and> weight v = orZero (parseFloat (ToString (element r 13)))
           \<and> weight v \<noteq> NaN
           \<and> (length r \<le> 13 \<or> parseFloat (ToString (element r 13)) = NaN \<longrightarrow> weight v = Num 0)
           \<and> (\<not> startsWith (trimStart (ToString (element r 13))) ''-'' \<longrightarrow> geZero (weight v))"
proof -
  from assms obtain r where r: "r \<in> set (documentRows csv)" and len: "11 \<le> length r"
    and v: "v = mkVariant r"
    by (rule catalog_variant)
  have fields: "stdPrice v = cleanPrice (r ! 6)" "floorPrice v = cleanPrice (r ! 8)"
    "givePrice v = cleanPrice (r ! 9)" "gsaPrice v = cleanPrice (r ! 10)"
    "weight v = weightOf r"
    by (simp_all add: v mkVariant_def)
  have prices: "\<forall>(field, i) \<in> set [(stdPrice, 6), (floorPrice, 8), (givePrice, 9), (gsaPrice, 10)].
                 field v = cleanPrice (r ! i) \<and> field v \<noteq> NaN
                 \<and> (r ! i = [] \<or> parseFloat (stripPrice (r ! i)) = NaN \<longrightarrow> field v = Num 0)
                 \<and> (\<not> startsWith (stripPrice (r ! i)) ''-'' \<longrightarrow> geZero (field v))"
    using price_cell [of "r ! 6"] price_cell [of "r ! 8"] price_cell [of "r ! 9"]
      price_cell [of "r ! 10"]
    by (simp only: fields list.set ball_simps prod.case) blast
  have w: "weight v = orZero (parseFloat (ToString (element r 13)))
           \<and> weight v \<noteq> NaN
           \<and> (length r \<le> 13 \<or> parseFloat (ToString (element r 13)) = NaN \<longrightarrow> weight v = Num 0)
           \<and> (\<not> startsWith (trimStart (ToString (element r 13))) ''-'' \<longrightarrow> geZero (weight v))"
    using weight_cell [of r] by (simp only: fields) (simp add: weightOf_def)
  from len prices w have "11 \<le> length r
           \<and> (\<forall>(field, i) \<in> set [(stdPrice, 6), (floorPrice, 8), (givePrice, 9), (gsaPrice, 10)].
                 field v = cleanPrice (r ! i) \<and> field v \<noteq> NaN
                 \<and> (r ! i = [] \<or> parseFloat (stripPrice (r ! i)) = NaN \<longrightarrow> field v = Num 0)
                 \<and> (\<not> startsWith (stripPrice (r ! i)) ''-'' \<longrightarrow> geZero (field v)))
           \<and> weight v = orZero (parseFloat (ToString (element r 13)))
           \<and> weight v \<noteq> NaN
           \<and> (length r \<le> 13 \<or> parseFloat (ToString (element r 13)) = NaN \<longrightarrow> weight v = Num 0)
           \<and> (\<not> startsWith (trimStart (ToString (element r 13))) ''-'' \<longrightarrow> geZero (weight v))"
    by (intro conjI) blast+
  with r show ?thesis
    by (rule rev_bexI)
qed

text \<open>
  C1 as stated fails: a cell \<open>-5\<close> is a standard price of \<open>-5\<close>.
\<close>

theorem negative_price_counterexample:
  "parseCSV codeUnitCompare (''sku'' @ CHR 0x0A # ''PL,Fam,Par,S1,d,u,-5,x,1,2,3'')
     = Inr [\<lparr> parentName = ''Par'', family = ''Fam'',
              variants = [\<lparr> sku = ''S1'', description = ''d'', unit = ''u'',
                            stdPrice = Num (- 5), floorPrice = Num 1, givePrice = Num 2,
                            gsaPrice = Num 3, weight = Num 0, productLine = ''PL'',
                            family = ''Fam'' \<rparr>] \<rparr>]
   \<and> \<not> geZero (Num (- 5))"
  by (simp add: eval_defs)

theorem variant_numbers_witness:
  \<open>\<exists>cat g v.
     parseCSV codeUnitCompare (''sku'' @ CHR 0x0A # ''PL,Fam,Par,S1,d,u,"$1,234.50",x,,n/a,7'')
       = Inr cat
     \<and> g \<in> set cat \<and> v \<in> set (variants g)
     \<and> stdPrice v = Num 1234.5 \<and> floorPrice v = Num 0 \<and> givePrice v = Num 0
     \<and> gsaPrice v = Num 7 \<and> weight v = Num 0
     \<and> (\<exists>r \<in> set (documentRows (''sku'' @ CHR 0x0A # ''PL,Fam,Par,S1,d,u,"$1,234.50",x,,n/a,7'')).
           length r = 11 \<and> stdPrice v = cleanPrice (r ! 6) \<and> givePrice v = cleanPrice (r ! 9)
           \<and> weight v = orZero (parseFloat (ToString (element r 13))))\<close>
proof -
  let ?csv = \<open>''sku'' @ CHR 0x0A # ''PL,Fam,Par,S1,d,u,"$1,234.50",x,,n/a,7''\<close>
  let ?v = "\<lparr> sku = ''S1'', description = ''d'', unit = ''u'',
              stdPrice = Num 1234.5, floorPrice = Num 0, givePrice = Num 0,
              gsaPrice = Num 7, weight = Num 0, productLine = ''PL'',
              family = ''Fam'' \<rparr>"
  let ?g = "\<lparr> parentName = ''Par'', family = ''Fam'', variants = [?v] \<rparr>"
  have run: "parseCSV codeUnitCompare ?csv = Inr [?g]"
    by (simp add: eval_defs)
  have rows: \<open>documentRows ?csv
              = [[''PL'', ''Fam'', ''Par'', ''S1'', ''d'', ''u'', ''$1,234.50'', ''x'', [], ''n/a'', ''7'']]\<close>
    by (simp add: documentRows_def dataRows_def isSentinel_def isSkipped_def parseLine_def
          string_defs)
  have mem: "?g \<in> set [?g]" "?v \<in> set (variants ?g)"
    by simp_all
  from variant_numbers [OF run mem]
  have "\<exists>r \<in> set (documentRows ?csv).
           length r = 11 \<and> stdPrice ?v = cleanPrice (r ! 6) \<and> givePrice ?v = cleanPrice (r ! 9)
           \<and> weight ?v = orZero (parseFloat (ToString (element r 13)))"
  proof (elim bexE conjE)
    fix r
    assume r: "r \<in> set (documentRows ?csv)"
      and prices: "\<forall>(field, i) \<in> set [(stdPrice, 6), (floorPrice, 8), (givePrice, 9), (gsaPrice, 10)].
                 field ?v = cleanPrice (r ! i) \<and> field ?v \<noteq> NaN
                 \<and> (r ! i = [] \<or> parseFloat (stripPrice (r ! i)) = NaN \<longrightarrow> field ?v = Num 0)
                 \<and> (\<not> startsWith (stripPrice (r ! i)) ''-'' \<longrightarrow> geZero (field ?v))"
      and w: "weight ?v = orZero (parseFloat (ToString (element r 13)))"
    from r rows have len: "length r = 11"
      by simp
    from prices have "stdPrice ?v = cleanPrice (r ! 6)" and "givePrice ?v = cleanPrice (r ! 9)"
      by auto
    with r len w show ?thesis
      by blast
  qed
  with run show ?thesis
    by (intro exI [of _ "[?g]"] exI [of _ ?g] exI [of _ ?v]) simp
qed

section \<open>The section boundary\<close>

lemma split_trim_Nil: "split (trim []) = [[]]"
  by (simp add: string_defs)

lemma parseCSV_lines:
  assumes "split (trim csv) = header # l # ls"
  shows "parseCSV localeCompare csv =
           (case loop [] (l # ls) of
              Inl e \<Rightarrow> Inl e
            | Inr groups \<Rightarrow>
                Inr (sortWith (\<lambda>a b. localeCompare (parentName a) (parentName b))
                       (objectValues groups)))"
proof -
  from assms split_trim_Nil have "csv \<noteq> []"
    by auto
  with assms show ?thesis
    by (simp add: parseCSV_def)
qed

lemma takeWhile_sentinel:
  assumes "isSentinel s"
  shows "takeWhile (\<lambda>l. \<not> isSentinel l) (before @ s # after)
         = takeWhile (\<lambda>l. \<not> isSentinel l) before"
proof (cases "\<forall>x \<in> set before. \<not> isSentinel x")
  case True
  then have "takeWhile (\<lambda>l. \<not> isSentinel l) (before @ s # after)
             = before @ takeWhile (\<lambda>l. \<not> isSentinel l) (s # after)"
    by (intro takeWhile_append2) blast
  also have "\<dots> = before"
    using assms by simp
  also have "\<dots> = takeWhile (\<lambda>l. \<not> isSentinel l) before"
    using True by (intro takeWhile_eq_all_conv [THEN iffD2, symmetric])
  finally show ?thesis .
next
  case False
  then obtain x where "x \<in> set before" and "\<not> \<not> isSentinel x"
    by blast
  then show ?thesis
    by (rule takeWhile_append1)
qed

lemma dataRows_sentinel:
  assumes "isSentinel s"
  shows "dataRows (before @ s # after) = dataRows before"
  using assms by (simp add: dataRows_def takeWhile_sentinel)

lemma loop_sentinel:
  assumes "isSentinel s"
  shows "loop groups (before @ s # after) = loop groups before"
  using assms by (simp add: loop_dataRows dataRows_sentinel)

text \<open>
  C3, as the code has it. The loop starts at the second line, so the header line is never
  tested. For every document, a line after the header whose trimmed text starts with
  \<open>scsclass\<close> in any letter case ends the processing: the result is computed from the
  lines between the header and that line alone, and two documents that agree on those
  lines give the same result whatever follows the sentinel.
\<close>

theorem lines_after_sentinel_discarded:
  assumes "split (trim csv) = header # before @ s # after" and "isSentinel s"
    and "split (trim csv') = header' # before @ s' # after'" and "isSentinel s'"
  shows "parseCSV localeCompare csv = parseCSV localeCompare csv'
         \<and> parseCSV localeCompare csv =
             (case loop [] before of
                Inl e \<Rightarrow> Inl e
              | Inr groups \<Rightarrow>
                  Inr (sortWith (\<lambda>a b. localeCompare (parentName a) (parentName b))
                         (objectValues groups)))"
proof -
  have shape: "\<And>xs y ys. xs @ y # ys = hd (xs @ y # ys) # tl (xs @ y # ys)"
    by simp
  have one: "parseCSV localeCompare csv =
             (case loop [] (before @ s # after) of
                Inl e \<Rightarrow> Inl e
              | Inr groups \<Rightarrow>
                  Inr (sortWith (\<lambda>a b. localeCompare (parentName a) (parentName b))
                         (objectValues groups)))"
    using parseCSV_lines [of csv header "hd (before @ s # after)" "tl (before @ s # after)"]
      assms(1) by simp
  have two: "parseCSV localeCompare csv' =
             (case loop [] (before @ s' # after') of
                Inl e \<Rightarrow> Inl e
              | Inr groups \<Rightarrow>
                  Inr (sortWith (\<lambda>a b. localeCompare (parentName a) (parentName b))
                         (objectValues groups)))"
    using parseCSV_lines [of csv' header' "hd (before @ s' # after')" "tl (before @ s' # after')"]
      assms(3) by simp
  from one two assms(2,4) show ?thesis
    by (simp add: loop_sentinel)
qed


text \<open>
  C3 as stated fails where the sentinel is the first line: it is skipped as the header,
  and the row after it is in the catalog.
\<close>

theorem header_sentinel_counterexample:
  "isSentinel ''SCSClass,Description''
   \<and> split (trim (''SCSClass,Description'' @ CHR 0x0A # ''PL,Fam,Par,S1,d,u,1,x,2,3,4''))
       = [''SCSClass,Description'', ''PL,Fam,Par,S1,d,u,1,x,2,3,4'']
   \<and> parseCSV codeUnitCompare
        (''SCSClass,Description'' @ CHR 0x0A # ''PL,Fam,Par,S1,d,u,1,x,2,3,4'')
       = Inr [\<lparr> parentName = ''Par'', family = ''Fam'',
                variants = [\<lparr> sku = ''S1'', description = ''d'', unit = ''u'',
                              stdPrice = Num 1, floorPrice = Num 2, givePrice = Num 3,
                              gsaPrice = Num 4, weight = Num 0, productLine = ''PL'',
                              family = ''Fam'' \<rparr>] \<rparr>]"
  by (simp add: isSentinel_def eval_defs)

theorem lines_after_sentinel_discarded_witness:
  "split (trim (''sku'' @ CHR 0x0A # ''PL,Fam,Par,S1,d,u,1,x,2,3,4'' @ CHR 0x0A # ''ScsClass,x''
                 @ CHR 0x0A # ''PL,Fam,Par,S2,d,u,1,x,2,3,4''))
     = ''sku'' # [''PL,Fam,Par,S1,d,u,1,x,2,3,4''] @ ''ScsClass,x'' # [''PL,Fam,Par,S2,d,u,1,x,2,3,4'']
   \<and> split (trim (''sku'' @ CHR 0x0A # ''PL,Fam,Par,S1,d,u,1,x,2,3,4'' @ CHR 0x0A # ''ScsClass,x''))
     = ''sku'' # [''PL,Fam,Par,S1,d,u,1,x,2,3,4''] @ ''ScsClass,x'' # []
   \<and> isSentinel ''ScsClass,x''
   \<and> parseCSV codeUnitCompare
        (''sku'' @ CHR 0x0A # ''PL,Fam,Par,S1,d,u,1,x,2,3,4'' @ CHR 0x0A # ''ScsClass,x''
          @ CHR 0x0A # ''PL,Fam,Par,S2,d,u,1,x,2,3,4'')
     = parseCSV codeUnitCompare
        (''sku'' @ CHR 0x0A # ''PL,Fam,Par,S1,d,u,1,x,2,3,4'' @ CHR 0x0A # ''ScsClass,x'')"
proof -
  let ?csv = "''sku'' @ CHR 0x0A # ''PL,Fam,Par,S1,d,u,1,x,2,3,4'' @ CHR 0x0A # ''ScsClass,x''
                 @ CHR 0x0A # ''PL,Fam,Par,S2,d,u,1,x,2,3,4''"
  let ?csv' = "''sku'' @ CHR 0x0A # ''PL,Fam,Par,S1,d,u,1,x,2,3,4'' @ CHR 0x0A # ''ScsClass,x''"
  have a: "split (trim ?csv)
           = ''sku'' # [''PL,Fam,Par,S1,d,u,1,x,2,3,4''] @ ''ScsClass,x'' # [''PL,Fam,Par,S2,d,u,1,x,2,3,4'']"
    by (simp add: string_defs)
  have b: "split (trim ?csv') = ''sku'' # [''PL,Fam,Par,S1,d,u,1,x,2,3,4''] @ ''ScsClass,x'' # []"
    by (simp add: string_defs)
  have s: "isSentinel ''ScsClass,x''"
    by (simp add: isSentinel_def string_defs)
  from lines_after_sentinel_discarded [OF a s b s, of codeUnitCompare]
  have "parseCSV codeUnitCompare ?csv = parseCSV codeUnitCompare ?csv'"
    by (rule conjunct1)
  with a b s show ?thesis
    by (intro conjI)
qed

section \<open>Duplicate skus\<close>

lemma dataRows_append:
  assumes "\<forall>x \<in> set before. \<not> isSentinel x"
  shows "dataRows (before @ ls) = dataRows before @ dataRows ls"
proof -
  from assms have app: "takeWhile (\<lambda>l. \<not> isSentinel l) (before @ ls)
                   = before @ takeWhile (\<lambda>l. \<not> isSentinel l) ls"
    by (intro takeWhile_append2) blast
  from assms have all: "takeWhile (\<lambda>l. \<not> isSentinel l) before = before"
    by (intro takeWhile_eq_all_conv [THEN iffD2])
  show ?thesis
    by (simp add: dataRows_def app all)
qed

lemma dataRows_stopped:
  assumes "\<exists>x \<in> set before. isSentinel x"
  shows "dataRows (before @ ls) = dataRows before"
proof -
  from assms obtain x where "x \<in> set before" and "\<not> \<not> isSentinel x"
    by blast
  then have "takeWhile (\<lambda>l. \<not> isSentinel l) (before @ ls)
             = takeWhile (\<lambda>l. \<not> isSentinel l) before"
    by (rule takeWhile_append1)
  then show ?thesis
    by (simp add: dataRows_def)
qed

lemma dataRows_Cons:
  assumes "\<not> isSentinel l" and "\<not> isSkipped l" and "11 \<le> length (parseLine (trim l))"
  shows "dataRows (l # ls) = parseLine (trim l) # dataRows ls"
  using assms by (simp add: dataRows_def)

lemma dataRows_member:
  assumes "\<forall>x \<in> set before. \<not> isSentinel x" and "l \<in> set before"
    and "\<not> isSkipped l" and "11 \<le> length (parseLine (trim l))"
  shows "parseLine (trim l) \<in> set (dataRows before)"
proof -
  from assms(1) have all: "takeWhile (\<lambda>l. \<not> isSentinel l) before = before"
    by (intro takeWhile_eq_all_conv [THEN iffD2])
  from assms(2-4) show ?thesis
    by (simp add: dataRows_def all)
qed

lemma processRows_duplicate:
  assumes "r0 \<in> set rs" and "parentNameOf r0 = parentNameOf r" and "skuOf r0 = skuOf r"
  shows "processRows [] (rs @ r # rest) = processRows [] (rs @ rest)"
proof (cases "\<exists>x \<in> set rs. parentNameOf x \<in> set objectPrototypeKeys")
  case True
  then show ?thesis
    by (simp add: processRows_append processRows_groupsOf)
next
  case False
  from assms(1,2) have known: "parentNameOf r \<in> parentNameOf ` set rs"
    by (metis imageI)
  from assms have "skuOf r \<in> skuOf ` {r' \<in> set rs. parentNameOf r' = parentNameOf r}"
    by (metis (mono_tags, lifting) imageI mem_Collect_eq)
  with known have "groupsOf (rs @ [r]) = groupsOf rs"
    by (simp add: groupsOf_snoc del: mem_Collect_eq)
  with known have "processRow (groupsOf rs) r = Inr (groupsOf rs)"
    by (simp add: processRow_known)
  with False show ?thesis
    by (simp add: processRows_append processRows_groupsOf)
qed

lemma loop_duplicate:
  assumes "l0 \<in> set before"
    and "\<not> isSkipped l0" and "11 \<le> length (parseLine (trim l0))"
    and "\<not> isSentinel l" and "\<not> isSkipped l" and "11 \<le> length (parseLine (trim l))"
    and "parentNameOf (parseLine (trim l0)) = parentNameOf (parseLine (trim l))"
    and "skuOf (parseLine (trim l0)) = skuOf (parseLine (trim l))"
  shows "loop [] (before @ l # after) = loop [] (before @ after)"
proof (cases "\<forall>x \<in> set before. \<not> isSentinel x")
  case True
  with assms(1-3) have "parseLine (trim l0) \<in> set (dataRows before)"
    by (intro dataRows_member)
  then have "processRows [] (dataRows before @ parseLine (trim l) # dataRows after)
             = processRows [] (dataRows before @ dataRows after)"
    using assms(7,8) by (rule processRows_duplicate)
  with True assms(4-6) show ?thesis
    by (simp add: loop_dataRows dataRows_append dataRows_Cons)
next
  case False
  then have stop: "\<exists>x \<in> set before. isSentinel x"
    by simp
  show ?thesis
    by (simp only: loop_dataRows dataRows_stopped [OF stop])
qed

lemma variants_closed:
  assumes "parseCSV localeCompare csv = Inr cat" and "g \<in> set cat"
  shows "variants g = map mkVariant
           (firstBy skuOf (filter (\<lambda>r. parentNameOf r = parentName g) (documentRows csv)))"
proof -
  from assms obtain r0 where "g = groupOf (documentRows csv) r0"
    by (rule catalog_group)
  then show ?thesis
    by (simp add: groupOf_def)
qed

lemma map_sku_mkVariant: "map sku (map mkVariant rs) = map skuOf rs"
  by (simp add: sku_mkVariant)

lemma find_append_first: "\<exists>x \<in> set xs. P x \<Longrightarrow> find P (xs @ ys) = find P xs"
  by (induction xs) auto

lemma find_filter: "find Q (filter P xs) = find (\<lambda>x. P x \<and> Q x) xs"
  by (induction xs) auto

lemma find_member: "find P xs = Some x \<Longrightarrow> x \<in> set xs \<and> P x"
  by (induction xs) (auto split: if_splits)

lemma find_in_firstBy:
  assumes "find (\<lambda>y. f y = k) xs = Some x"
  shows "x \<in> set (firstBy f xs)"
proof -
  from assms have "find (\<lambda>y. f y = k) (firstBy f xs) = Some x"
    by (simp only: find_firstBy)
  then show ?thesis
    using find_member by fastforce
qed

lemma filter_distinct_key:
  "distinct (map f xs) \<Longrightarrow> x \<in> set xs \<Longrightarrow> filter (\<lambda>y. f y = f x) xs = [x]"
proof (induction xs)
  case Nil
  then show ?case by simp
next
  case (Cons y ys)
  show ?case
  proof (cases "y = x")
    case True
    with Cons.prems have "f x \<notin> f ` set ys"
      by simp
    then have "\<forall>z \<in> set ys. f z \<noteq> f x"
      by (metis imageI)
    then have "filter (\<lambda>z. f z = f x) ys = []"
      by (simp add: filter_empty_conv)
    with True show ?thesis by simp
  next
    case False
    with Cons.prems have "x \<in> set ys" and "f y \<noteq> f x"
      by auto
    with Cons show ?thesis by simp
  qed
qed

lemma first_row_retained:
  assumes run: "parseCSV localeCompare csv = Inr cat"
    and rows: "documentRows csv = early @ rest"
    and r0: "r0 \<in> set early"
  shows "\<exists>g r1. g \<in> set cat \<and> parentName g = parentNameOf r0
           \<and> find (\<lambda>r. parentNameOf r = parentNameOf r0 \<and> skuOf r = skuOf r0) (documentRows csv)
               = Some r1
           \<and> r1 \<in> set early
           \<and> filter (\<lambda>v. sku v = skuOf r0) (variants g) = [mkVariant r1]
           \<and> variants g = map mkVariant
                 (firstBy skuOf (filter (\<lambda>r. parentNameOf r = parentName g) (documentRows csv)))
           \<and> distinct (map sku (variants g))"
proof -
  let ?P = "\<lambda>r. parentNameOf r = parentNameOf r0 \<and> skuOf r = skuOf r0"
  from r0 have ex: "\<exists>x \<in> set early. ?P x"
    by blast
  then have "find ?P early \<noteq> None"
    by (auto simp: find_None_iff)
  then obtain r1 where f1: "find ?P early = Some r1"
    by blast
  from ex f1 have first: "find ?P (documentRows csv) = Some r1"
    by (simp only: rows find_append_first)
  from f1 have r1: "r1 \<in> set early" and p1: "parentNameOf r1 = parentNameOf r0"
    and s1: "skuOf r1 = skuOf r0"
    using find_member [of ?P early r1] by blast+
  from r0 rows have "parentNameOf r0 \<in> parentNameOf ` set (documentRows csv)"
    by simp
  then have "parentNameOf r0 \<in> set (map parentName cat)"
    by (simp only: catalog_distinct(2) [OF run])
  then obtain g where g: "g \<in> set cat" and name: "parentName g = parentNameOf r0"
    by auto
  let ?own = "filter (\<lambda>r. parentNameOf r = parentName g) (documentRows csv)"
  from run g have vs: "variants g = map mkVariant (firstBy skuOf ?own)"
    by (rule variants_closed)
  have "find (\<lambda>r. skuOf r = skuOf r0) ?own = Some r1"
    using first by (simp only: find_filter name)
  then have kept: "r1 \<in> set (firstBy skuOf ?own)"
    by (rule find_in_firstBy)
  have dist: "distinct (map sku (variants g))"
    using firstBy_distinct [of skuOf ?own] by (simp add: vs map_sku_mkVariant del: map_map)
  from kept have "mkVariant r1 \<in> set (variants g)"
    by (simp only: vs set_map) (rule imageI)
  with dist have "filter (\<lambda>v. sku v = sku (mkVariant r1)) (variants g) = [mkVariant r1]"
    by (rule filter_distinct_key)
  then have only: "filter (\<lambda>v. sku v = skuOf r0) (variants g) = [mkVariant r1]"
    by (simp only: sku_mkVariant s1)
  from g name first r1 only vs dist show ?thesis
    by blast
qed

text \<open>
  C4. Take a document with a data row \<open>l0\<close> that the loop reaches (no sentinel before
  it) and a later data row \<open>l\<close> of the same parent name and the same sku. The later row
  is dropped and changes nothing: the result is the one the loop gives on the lines
  without \<open>l\<close>, and every document with those lines parses to the same value. The parse
  returns a catalog unless a row has a parent name that every object inherits. In every
  catalog returned, the group of that parent name is there, and its variants with that
  sku are exactly one, built from the first row of that parent name and sku, a row at or
  before \<open>l0\<close>; the variants of the group are built from the first row of every sku
  among the rows of its parent name, so no two of them share a sku.
\<close>

theorem duplicate_sku_dropped:
  assumes lines: "split (trim csv) = header # before @ l0 # between @ l # after"
    and reached: "\<forall>x \<in> set before. \<not> isSentinel x"
    and first: "\<not> isSentinel l0" "\<not> isSkipped l0" "11 \<le> length (parseLine (trim l0))"
    and later: "\<not> isSentinel l" "\<not> isSkipped l" "11 \<le> length (parseLine (trim l))"
    and parent: "parentNameOf (parseLine (trim l0)) = parentNameOf (parseLine (trim l))"
    and same: "skuOf (parseLine (trim l0)) = skuOf (parseLine (trim l))"
  shows "parseCSV localeCompare csv =
           (case loop [] (before @ l0 # between @ after) of
              Inl e \<Rightarrow> Inl e
            | Inr groups \<Rightarrow>
                Inr (sortWith (\<lambda>a b. localeCompare (parentName a) (parentName b))
                       (objectValues groups)))
         \<and> (\<forall>csv' header'. split (trim csv') = header' # before @ l0 # between @ after \<longrightarrow>
               parseCSV localeCompare csv' = parseCSV localeCompare csv)
         \<and> ((\<forall>r \<in> set (documentRows csv). parentNameOf r \<notin> set objectPrototypeKeys) \<longrightarrow>
               (\<exists>cat. parseCSV localeCompare csv = Inr cat))
         \<and> (\<forall>cat. parseCSV localeCompare csv = Inr cat \<longrightarrow>
               (\<exists>g r1. g \<in> set cat
                  \<and> parentName g = parentNameOf (parseLine (trim l))
                  \<and> find (\<lambda>r. parentNameOf r = parentNameOf (parseLine (trim l))
                                \<and> skuOf r = skuOf (parseLine (trim l))) (documentRows csv)
                      = Some r1
                  \<and> r1 \<in> set (dataRows (before @ [l0]))
                  \<and> filter (\<lambda>v. sku v = skuOf (parseLine (trim l))) (variants g) = [mkVariant r1]
                  \<and> variants g = map mkVariant
                        (firstBy skuOf
                           (filter (\<lambda>r. parentNameOf r = parentName g) (documentRows csv)))
                  \<and> distinct (map sku (variants g))))"
proof -
  let ?result = "\<lambda>ls. case loop [] ls of
                        Inl e \<Rightarrow> Inl e
                      | Inr groups \<Rightarrow>
                          Inr (sortWith (\<lambda>a b. localeCompare (parentName a) (parentName b))
                                 (objectValues groups))"
  let ?with = "before @ l0 # between @ l # after"
  let ?without = "before @ l0 # between @ after"
  have shape: "xs @ y # ys = hd (xs @ y # ys) # tl (xs @ y # ys)" for xs ys :: "string list" and y
    by simp
  have "parseCSV localeCompare csv = ?result (hd ?with # tl ?with)"
    using lines shape [of before l0 "between @ l # after"]
    by (intro parseCSV_lines [of csv header]) simp
  then have one: "parseCSV localeCompare csv = ?result ?with"
    by simp
  have two: "parseCSV localeCompare csv' = ?result ?without"
    if "split (trim csv') = header' # ?without" for csv' header'
  proof -
    have "parseCSV localeCompare csv' = ?result (hd ?without # tl ?without)"
      using that shape [of before l0 "between @ after"]
      by (intro parseCSV_lines [of csv' header']) simp
    then show ?thesis by simp
  qed
  have "l0 \<in> set (before @ l0 # between)"
    by simp
  then have "loop [] ((before @ l0 # between) @ l # after) = loop [] ((before @ l0 # between) @ after)"
    using first(2,3) later parent same by (rule loop_duplicate)
  then have dropped: "loop [] ?with = loop [] ?without"
    by simp
  from one dropped have c1: "parseCSV localeCompare csv = ?result ?without"
    by simp
  from two c1 have c2: "\<forall>csv' header'. split (trim csv') = header' # ?without \<longrightarrow>
               parseCSV localeCompare csv' = parseCSV localeCompare csv"
    by simp
  have c3: "(\<forall>r \<in> set (documentRows csv). parentNameOf r \<notin> set objectPrototypeKeys) \<longrightarrow>
               (\<exists>cat. parseCSV localeCompare csv = Inr cat)"
    by (simp add: parseCSV_rows)
  from reached first(1) have clean: "\<forall>x \<in> set (before @ [l0]). \<not> isSentinel x"
    by simp
  have "documentRows csv = dataRows ((before @ [l0]) @ (between @ l # after))"
    by (simp add: documentRows_def lines)
  also from clean have "\<dots> = dataRows (before @ [l0]) @ dataRows (between @ l # after)"
    by (rule dataRows_append)
  finally have rows: "documentRows csv
                      = dataRows (before @ [l0]) @ dataRows (between @ l # after)" .
  have "l0 \<in> set (before @ [l0])"
    by simp
  with clean have r0: "parseLine (trim l0) \<in> set (dataRows (before @ [l0]))"
    using first(2,3) by (rule dataRows_member)
  have c4: "\<exists>g r1. g \<in> set cat
                  \<and> parentName g = parentNameOf (parseLine (trim l))
                  \<and> find (\<lambda>r. parentNameOf r = parentNameOf (parseLine (trim l))
                                \<and> skuOf r = skuOf (parseLine (trim l))) (documentRows csv)
                      = Some r1
                  \<and> r1 \<in> set (dataRows (before @ [l0]))
                  \<and> filter (\<lambda>v. sku v = skuOf (parseLine (trim l))) (variants g) = [mkVariant r1]
                  \<and> variants g = map mkVariant
                        (firstBy skuOf
                           (filter (\<lambda>r. parentNameOf r = parentName g) (documentRows csv)))
                  \<and> distinct (map sku (variants g))"
    if "parseCSV localeCompare csv = Inr cat" for cat
    using first_row_retained [OF that rows r0] by (simp only: parent same)
  from c1 c2 c3 c4 show ?thesis
    by (intro conjI allI impI) blast+
qed

theorem duplicate_sku_dropped_witness:
  "\<exists>g r1.
     split (trim (''sku'' @ CHR 0x0A # ''PL,Fam,Par,S1,d,u,1,x,2,3,4''
                   @ CHR 0x0A # ''PL,Fam,Par,S2,d,u,1,x,2,3,4 ''
                   @ CHR 0x0A # ''PL,Fam,Par,S1,later,u,9,x,9,9,9''))
       = ''sku'' # [] @ ''PL,Fam,Par,S1,d,u,1,x,2,3,4'' # [''PL,Fam,Par,S2,d,u,1,x,2,3,4 '']
           @ ''PL,Fam,Par,S1,later,u,9,x,9,9,9'' # []
     \<and> parseCSV codeUnitCompare
          (''sku'' @ CHR 0x0A # ''PL,Fam,Par,S1,d,u,1,x,2,3,4''
            @ CHR 0x0A # ''PL,Fam,Par,S2,d,u,1,x,2,3,4 ''
            @ CHR 0x0A # ''PL,Fam,Par,S1,later,u,9,x,9,9,9'') = Inr [g]
     \<and> map sku (variants g) = [''S1'', ''S2'']
     \<and> find (\<lambda>r. parentNameOf r = ''Par'' \<and> skuOf r = ''S1'')
          (documentRows (''sku'' @ CHR 0x0A # ''PL,Fam,Par,S1,d,u,1,x,2,3,4''
                          @ CHR 0x0A # ''PL,Fam,Par,S2,d,u,1,x,2,3,4 ''
                          @ CHR 0x0A # ''PL,Fam,Par,S1,later,u,9,x,9,9,9'')) = Some r1
     \<and> filter (\<lambda>v. sku v = ''S1'') (variants g) = [mkVariant r1]
     \<and> description (mkVariant r1) = ''d'' \<and> stdPrice (mkVariant r1) = Num 1"
proof -
  let ?first = "''PL,Fam,Par,S1,d,u,1,x,2,3,4''"
  let ?other = "''PL,Fam,Par,S2,d,u,1,x,2,3,4 ''"
  let ?later = "''PL,Fam,Par,S1,later,u,9,x,9,9,9''"
  let ?csv = "''sku'' @ CHR 0x0A # ?first @ CHR 0x0A # ?other @ CHR 0x0A # ?later"
  let ?variant = "\<lambda>s. \<lparr> sku = s, description = ''d'', unit = ''u'', stdPrice = Num 1,
                       floorPrice = Num 2, givePrice = Num 3, gsaPrice = Num 4, weight = Num 0,
                       productLine = ''PL'', family = ''Fam'' \<rparr>"
  define G where "G = \<lparr> parentName = ''Par'', family = ''Fam'',
                        variants = [?variant ''S1'', ?variant ''S2''] \<rparr>"
  have a: "split (trim ?csv) = ''sku'' # [] @ ?first # [?other] @ ?later # []"
    by (simp add: string_defs)
  have none: "\<forall>x \<in> set ([] :: string list). \<not> isSentinel x"
    by simp
  have d0: "\<not> isSentinel ?first" "\<not> isSkipped ?first" "11 \<le> length (parseLine (trim ?first))"
    by (simp_all add: isSentinel_def isSkipped_def parseLine_def string_defs)
  have d: "\<not> isSentinel ?later" "\<not> isSkipped ?later" "11 \<le> length (parseLine (trim ?later))"
    by (simp_all add: isSentinel_def isSkipped_def parseLine_def string_defs)
  have pl: "parentNameOf (parseLine (trim ?later)) = ''Par''"
    and sl: "skuOf (parseLine (trim ?later)) = ''S1''"
    by (simp_all add: parentNameOf_def skuOf_def parseLine_def string_defs)
  have p: "parentNameOf (parseLine (trim ?first)) = parentNameOf (parseLine (trim ?later))"
    by (simp add: parentNameOf_def parseLine_def string_defs)
  have s: "skuOf (parseLine (trim ?first)) = skuOf (parseLine (trim ?later))"
    by (simp add: skuOf_def parseLine_def string_defs)
  have run: "parseCSV codeUnitCompare ?csv = Inr [G]"
    by (simp add: G_def eval_defs)
  note claim = duplicate_sku_dropped [OF a none d0 d p s, of codeUnitCompare]
  from claim have "\<forall>cat. parseCSV codeUnitCompare ?csv = Inr cat \<longrightarrow>
               (\<exists>g r1. g \<in> set cat
                  \<and> parentName g = parentNameOf (parseLine (trim ?later))
                  \<and> find (\<lambda>r. parentNameOf r = parentNameOf (parseLine (trim ?later))
                                \<and> skuOf r = skuOf (parseLine (trim ?later))) (documentRows ?csv)
                      = Some r1
                  \<and> r1 \<in> set (dataRows ([] @ [?first]))
                  \<and> filter (\<lambda>v. sku v = skuOf (parseLine (trim ?later))) (variants g)
                      = [mkVariant r1]
                  \<and> variants g = map mkVariant
                        (firstBy skuOf
                           (filter (\<lambda>r. parentNameOf r = parentName g) (documentRows ?csv)))
                  \<and> distinct (map sku (variants g)))"
    by (elim conjE)
  with run obtain g r1 where g: "g \<in> set [G]"
    and found: "find (\<lambda>r. parentNameOf r = parentNameOf (parseLine (trim ?later))
                          \<and> skuOf r = skuOf (parseLine (trim ?later))) (documentRows ?csv)
                = Some r1"
    and only: "filter (\<lambda>v. sku v = skuOf (parseLine (trim ?later))) (variants g) = [mkVariant r1]"
    by blast
  from g have gG: "g = G"
    by simp
  from found have found': "find (\<lambda>r. parentNameOf r = ''Par'' \<and> skuOf r = ''S1'') (documentRows ?csv)
                           = Some r1"
    by (simp only: pl sl)
  from only have only': "filter (\<lambda>v. sku v = ''S1'') (variants G) = [mkVariant r1]"
    by (simp only: sl gG)
  have "filter (\<lambda>v. sku v = ''S1'') (variants G) = [?variant ''S1'']"
    by (simp add: G_def)
  with only' have v1: "mkVariant r1 = ?variant ''S1''"
    by simp
  have skus: "map sku (variants G) = [''S1'', ''S2'']"
    by (simp add: G_def)
  have fields: "description (mkVariant r1) = ''d''" "stdPrice (mkVariant r1) = Num 1"
    by (simp_all add: v1)
  from a run skus found' only' fields show ?thesis
    by (intro exI [of _ G] exI [of _ r1] conjI)
qed

section \<open>Groups, their order and their families\<close>

lemma codeUnitCompare_le: "codeUnitCompare a b \<le> 0 \<longleftrightarrow> a \<le> b"
  by (auto simp: codeUnitCompare_def)

lemma codeUnitCompare_total: "\<forall>a b. codeUnitCompare a b \<le> 0 \<or> codeUnitCompare b a \<le> 0"
  by (simp add: codeUnitCompare_le linear)

lemma codeUnitCompare_trans:
  "\<forall>a b c. codeUnitCompare a b \<le> 0 \<longrightarrow> codeUnitCompare b c \<le> 0 \<longrightarrow>
     codeUnitCompare a c \<le> 0"
  by (auto simp: codeUnitCompare_le)

text \<open>
  C5. For every document on which \<open>parseCSV\<close> returns a catalog, and a comparison
  \<open>localeCompare\<close> that is total and transitive: no two groups share a parent name, the
  parent names of the groups are exactly the parent names of the rows, the groups are in
  ascending order of their parent names under \<open>localeCompare\<close> whatever the order of the
  rows, and the variants of a group are in the order of the rows they come from, the
  first row of every sku.
\<close>

theorem catalog_groups_sorted:
  assumes "parseCSV localeCompare csv = Inr cat"
    and total: "\<forall>a b. localeCompare a b \<le> 0 \<or> localeCompare b a \<le> 0"
    and trans: "\<forall>a b c. localeCompare a b \<le> 0 \<longrightarrow> localeCompare b c \<le> 0 \<longrightarrow>
                  localeCompare a c \<le> 0"
  shows "distinct (map parentName cat)
         \<and> set (map parentName cat) = parentNameOf ` set (documentRows csv)
         \<and> sorted_wrt (\<lambda>g h. localeCompare (parentName g) (parentName h) \<le> 0) cat
         \<and> (\<forall>g \<in> set cat.
               variants g = map mkVariant
                 (firstBy skuOf (filter (\<lambda>r. parentNameOf r = parentName g) (documentRows csv))))"
proof -
  let ?cmp = "\<lambda>g h. localeCompare (parentName g) (parentName h)"
  from assms(1) have cat: "cat = sortWith ?cmp (objectValues (groupsOf (documentRows csv)))"
    by (simp add: parseCSV_rows split: if_splits)
  have "sorted_wrt (\<lambda>g h. ?cmp g h \<le> 0) (sortWith ?cmp (objectValues (groupsOf (documentRows csv))))"
  proof (rule sorted_sortWith)
    show "?cmp a b \<le> 0 \<or> ?cmp b a \<le> 0" for a b
      using total by blast
    show "?cmp a b \<le> 0 \<Longrightarrow> ?cmp b c \<le> 0 \<Longrightarrow> ?cmp a c \<le> 0" for a b c
      using trans by blast
  qed
  then have sorted: "sorted_wrt (\<lambda>g h. localeCompare (parentName g) (parentName h) \<le> 0) cat"
    by (simp only: cat)
  have order: "\<forall>g \<in> set cat.
               variants g = map mkVariant
                 (firstBy skuOf (filter (\<lambda>r. parentNameOf r = parentName g) (documentRows csv)))"
    using variants_closed [OF assms(1)] by blast
  from catalog_distinct [OF assms(1)] sorted order show ?thesis
    by (intro conjI)
qed

theorem catalog_groups_sorted_witness:
  "\<exists>cat. parseCSV codeUnitCompare
            (''sku'' @ CHR 0x0A # ''PL,F1,Zeta,S1,d,u,1,x,2,3,4''
              @ CHR 0x0A # ''PL,F2,Alpha,S2,d,u,1,x,2,3,4''
              @ CHR 0x0A # ''PL,F1,Zeta,S0,d,u,1,x,2,3,4'') = Inr cat
     \<and> map parentName cat = [''Alpha'', ''Zeta'']
     \<and> map (map sku \<circ> variants) cat = [[''S2''], [''S1'', ''S0'']]
     \<and> distinct (map parentName cat)
     \<and> sorted_wrt (\<lambda>g h. codeUnitCompare (parentName g) (parentName h) \<le> 0) cat"
proof -
  let ?csv = "''sku'' @ CHR 0x0A # ''PL,F1,Zeta,S1,d,u,1,x,2,3,4''
              @ CHR 0x0A # ''PL,F2,Alpha,S2,d,u,1,x,2,3,4''
              @ CHR 0x0A # ''PL,F1,Zeta,S0,d,u,1,x,2,3,4''"
  let ?variant = "\<lambda>s. \<lparr> sku = s, description = ''d'', unit = ''u'', stdPrice = Num 1,
                       floorPrice = Num 2, givePrice = Num 3, gsaPrice = Num 4, weight = Num 0,
                       productLine = ''PL'', family = ''F1'' \<rparr>"
  let ?cat = "[\<lparr> parentName = ''Alpha'', family = ''F2'',
                 variants = [(?variant ''S2'')\<lparr> ProductVariant.family := ''F2'' \<rparr>] \<rparr>,
               \<lparr> parentName = ''Zeta'', family = ''F1'',
                 variants = [?variant ''S1'', ?variant ''S0''] \<rparr>]"
  have run: "parseCSV codeUnitCompare ?csv = Inr ?cat"
    by (simp add: eval_defs)
  have names: "map parentName ?cat = [''Alpha'', ''Zeta'']"
    and skus: "map (map sku \<circ> variants) ?cat = [[''S2''], [''S1'', ''S0'']]"
    by simp_all
  from catalog_groups_sorted [OF run codeUnitCompare_total codeUnitCompare_trans]
  have "distinct (map parentName ?cat)
        \<and> sorted_wrt (\<lambda>g h. codeUnitCompare (parentName g) (parentName h) \<le> 0) ?cat"
    by (elim conjE) (intro conjI)
  with run names skus show ?thesis
    by (intro exI [of _ ?cat] conjI) (elim conjE, assumption)+
qed

text \<open>
  C8. For every document on which \<open>parseCSV\<close> returns a catalog, the family of a group
  is the family of the first row with the group's parent name, the row that created the
  group: its trimmed field 1, or \<open>General\<close> where that is empty. No later row of that
  parent name has a part in it.
\<close>

theorem group_family_first_row:
  assumes "parseCSV localeCompare csv = Inr cat" and "g \<in> set cat"
  shows "\<exists>r0. find (\<lambda>r. parentNameOf r = parentName g) (documentRows csv) = Some r0
              \<and> 11 \<le> length r0
              \<and> ProductGroup.family g = (if r0 ! 1 = [] then ''General'' else r0 ! 1)"
proof -
  from assms obtain r0
    where first: "find (\<lambda>r. parentNameOf r = parentName g) (documentRows csv) = Some r0"
      and g: "g = groupOf (documentRows csv) r0"
    by (rule catalog_group)
  from first have "r0 \<in> set (documentRows csv)"
    by (auto simp: find_Some_iff)
  then have "11 \<le> length r0"
    by (simp add: documentRows_def dataRows_def)
  moreover from g have "ProductGroup.family g = (if r0 ! 1 = [] then ''General'' else r0 ! 1)"
    by (simp add: groupOf_def familyOf_def)
  ultimately show ?thesis
    using first by blast
qed

theorem group_family_first_row_witness:
  "\<exists>cat g. parseCSV codeUnitCompare
              (''sku'' @ CHR 0x0A # ''PL,,Par,S1,d,u,1,x,2,3,4''
                @ CHR 0x0A # ''PL,Later,Par,S2,d,u,1,x,2,3,4'') = Inr cat
     \<and> g \<in> set cat
     \<and> find (\<lambda>r. parentNameOf r = parentName g)
          (documentRows (''sku'' @ CHR 0x0A # ''PL,,Par,S1,d,u,1,x,2,3,4''
                          @ CHR 0x0A # ''PL,Later,Par,S2,d,u,1,x,2,3,4''))
         = Some [''PL'', [], ''Par'', ''S1'', ''d'', ''u'', ''1'', ''x'', ''2'', ''3'', ''4'']
     \<and> ProductGroup.family g = ''General''"
proof -
  let ?csv = "''sku'' @ CHR 0x0A # ''PL,,Par,S1,d,u,1,x,2,3,4''
                @ CHR 0x0A # ''PL,Later,Par,S2,d,u,1,x,2,3,4''"
  let ?r1 = "[''PL'', [], ''Par'', ''S1'', ''d'', ''u'', ''1'', ''x'', ''2'', ''3'', ''4'']"
  let ?r2 = "[''PL'', ''Later'', ''Par'', ''S2'', ''d'', ''u'', ''1'', ''x'', ''2'', ''3'', ''4'']"
  let ?variant = "\<lambda>s f. \<lparr> sku = s, description = ''d'', unit = ''u'', stdPrice = Num 1,
                       floorPrice = Num 2, givePrice = Num 3, gsaPrice = Num 4, weight = Num 0,
                       productLine = ''PL'', family = f \<rparr>"
  define g where "g = \<lparr> parentName = ''Par'', family = ''General'',
                        variants = [?variant ''S1'' ''General'', ?variant ''S2'' ''Later''] \<rparr>"
  have run: "parseCSV codeUnitCompare ?csv = Inr [g]"
    by (simp add: g_def eval_defs)
  have name: "parentName g = ''Par''"
    by (simp add: g_def)
  have rows: "documentRows ?csv = [?r1, ?r2]"
    by (simp add: documentRows_def dataRows_def isSentinel_def isSkipped_def parseLine_def
          string_defs)
  have mem: "g \<in> set [g]"
    by simp
  from group_family_first_row [OF run mem]
  obtain r0 where first: "find (\<lambda>r. parentNameOf r = parentName g) (documentRows ?csv) = Some r0"
    and fam: "ProductGroup.family g = (if r0 ! 1 = [] then ''General'' else r0 ! 1)"
    by blast
  from first [unfolded rows] have r0: "r0 = ?r1"
    by (simp add: name parentNameOf_def)
  with fam have "ProductGroup.family g = ''General''"
    by simp
  with run mem first r0 show ?thesis
    by blast
qed

section \<open>The family of a variant\<close>

lemma family_mkVariant: "ProductVariant.family (mkVariant r) = familyOf r"
  by (simp add: mkVariant_def)

text \<open>
  C9. For every document on which \<open>parseCSV\<close> returns a catalog, the family of every
  variant is the family of its own row (trimmed field 1, or \<open>General\<close> where that is
  empty): the families of a group's variants are, in order, the families of the rows the
  variants are built from. So the variant of a row whose family differs from the group's
  family carries a family that differs from the group's.
\<close>

theorem variant_family_own_row:
  assumes "parseCSV localeCompare csv = Inr cat" and "g \<in> set cat"
  shows "map ProductVariant.family (variants g)
           = map (\<lambda>r. if r ! 1 = [] then ''General'' else r ! 1)
               (firstBy skuOf (filter (\<lambda>r. parentNameOf r = parentName g) (documentRows csv)))
         \<and> (\<forall>r \<in> set (firstBy skuOf
                           (filter (\<lambda>r. parentNameOf r = parentName g) (documentRows csv))).
               familyOf r \<noteq> ProductGroup.family g \<longrightarrow>
               (\<exists>v \<in> set (variants g). v = mkVariant r \<and> sku v = r ! 3
                    \<and> ProductVariant.family v \<noteq> ProductGroup.family g))"
proof -
  let ?own = "firstBy skuOf (filter (\<lambda>r. parentNameOf r = parentName g) (documentRows csv))"
  from assms have vs: "variants g = map mkVariant ?own"
    by (rule variants_closed)
  have "map ProductVariant.family (map mkVariant ?own)
        = map (\<lambda>r. if r ! 1 = [] then ''General'' else r ! 1) ?own"
    by (simp add: family_mkVariant familyOf_def)
  then have families: "map ProductVariant.family (variants g)
                       = map (\<lambda>r. if r ! 1 = [] then ''General'' else r ! 1) ?own"
    by (simp only: vs)
  have "\<exists>v \<in> set (variants g). v = mkVariant r \<and> sku v = r ! 3
            \<and> ProductVariant.family v \<noteq> ProductGroup.family g"
    if "r \<in> set ?own" and "familyOf r \<noteq> ProductGroup.family g" for r
  proof -
    from that(1) have "mkVariant r \<in> set (variants g)"
      by (simp only: vs set_map) (rule imageI)
    moreover have "sku (mkVariant r) = r ! 3"
      by (simp add: mkVariant_def)
    moreover from that(2) have "ProductVariant.family (mkVariant r) \<noteq> ProductGroup.family g"
      by (simp add: family_mkVariant)
    ultimately show ?thesis
      by blast
  qed
  with families show ?thesis
    by blast
qed

theorem variant_family_own_row_witness:
  "\<exists>g v. parseCSV codeUnitCompare
            (''sku'' @ CHR 0x0A # ''PL,First,Par,S1,d,u,1,x,2,3,4''
              @ CHR 0x0A # ''PL,Later,Par,S2,d,u,1,x,2,3,4'') = Inr [g]
     \<and> ProductGroup.family g = ''First''
     \<and> map ProductVariant.family (variants g) = [''First'', ''Later'']
     \<and> v \<in> set (variants g) \<and> sku v = ''S2''
     \<and> ProductVariant.family v \<noteq> ProductGroup.family g"
proof -
  let ?csv = "''sku'' @ CHR 0x0A # ''PL,First,Par,S1,d,u,1,x,2,3,4''
              @ CHR 0x0A # ''PL,Later,Par,S2,d,u,1,x,2,3,4''"
  let ?r1 = "[''PL'', ''First'', ''Par'', ''S1'', ''d'', ''u'', ''1'', ''x'', ''2'', ''3'', ''4'']"
  let ?r2 = "[''PL'', ''Later'', ''Par'', ''S2'', ''d'', ''u'', ''1'', ''x'', ''2'', ''3'', ''4'']"
  let ?variant = "\<lambda>s f. \<lparr> sku = s, description = ''d'', unit = ''u'', stdPrice = Num 1,
                       floorPrice = Num 2, givePrice = Num 3, gsaPrice = Num 4, weight = Num 0,
                       productLine = ''PL'', family = f \<rparr>"
  define g where "g = \<lparr> parentName = ''Par'', family = ''First'',
                        variants = [?variant ''S1'' ''First'', ?variant ''S2'' ''Later''] \<rparr>"
  have run: "parseCSV codeUnitCompare ?csv = Inr [g]"
    by (simp add: g_def eval_defs)
  have mem: "g \<in> set [g]"
    by simp
  have rows: "documentRows ?csv = [?r1, ?r2]"
    by (simp add: documentRows_def dataRows_def isSentinel_def isSkipped_def parseLine_def
          string_defs)
  have own: "firstBy skuOf (filter (\<lambda>r. parentNameOf r = parentName g) [?r1, ?r2]) = [?r1, ?r2]"
    by (simp add: g_def parentNameOf_def skuOf_def)
  note claim = variant_family_own_row [OF run mem, unfolded rows own]
  from claim have families: "map ProductVariant.family (variants g) = [''First'', ''Later'']"
    by simp
  have "familyOf ?r2 \<noteq> ProductGroup.family g"
    by (simp add: familyOf_def g_def)
  moreover from claim have "\<forall>r \<in> set [?r1, ?r2]. familyOf r \<noteq> ProductGroup.family g \<longrightarrow>
               (\<exists>v \<in> set (variants g). v = mkVariant r \<and> sku v = r ! 3
                    \<and> ProductVariant.family v \<noteq> ProductGroup.family g)"
    by (rule conjunct2)
  then have "familyOf ?r2 \<noteq> ProductGroup.family g \<longrightarrow>
               (\<exists>v \<in> set (variants g). v = mkVariant ?r2 \<and> sku v = ?r2 ! 3
                    \<and> ProductVariant.family v \<noteq> ProductGroup.family g)"
    by (rule bspec) simp
  ultimately obtain v where v: "v \<in> set (variants g)" "sku v = ?r2 ! 3"
    "ProductVariant.family v \<noteq> ProductGroup.family g"
    by blast
  from v(2) have s2: "sku v = ''S2''"
    by simp
  have first: "ProductGroup.family g = ''First''"
    by (simp add: g_def)
  from run first families v(1) s2 v(3) show ?thesis
    by (intro exI [of _ g] exI [of _ v] conjI)
qed

section \<open>Parent names that every object inherits\<close>

lemma parseCSV_throws:
  "parseCSV localeCompare csv = Inl TypeError
     \<longleftrightarrow> (\<exists>r \<in> set (documentRows csv). parentNameOf r \<in> set objectPrototypeKeys)"
  by (simp add: parseCSV_rows)

text \<open>
  Where the parse returns, a row of at most 13 fields that is the first of its sku is in
  its group, with weight 0.
\<close>

lemma short_row_included:
  assumes run: "parseCSV localeCompare csv = Inr cat"
    and kept: "r \<in> set (firstBy skuOf
                         (filter (\<lambda>x. parentNameOf x = parentNameOf r) (documentRows csv)))"
    and short: "length r \<le> 13"
  shows "\<exists>g \<in> set cat. parentName g = parentNameOf r \<and> mkVariant r \<in> set (variants g)
                       \<and> weight (mkVariant r) = Num 0"
proof -
  let ?own = "filter (\<lambda>x. parentNameOf x = parentNameOf r) (documentRows csv)"
  from kept have "r \<in> set ?own"
    using firstBy_subset [of skuOf ?own] by blast
  then have "parentNameOf r \<in> parentNameOf ` set (documentRows csv)"
    by simp
  then have "parentNameOf r \<in> set (map parentName cat)"
    by (simp only: catalog_distinct(2) [OF run])
  then obtain g where g: "g \<in> set cat" and name: "parentName g = parentNameOf r"
    by auto
  from run g have "variants g = map mkVariant
      (firstBy skuOf (filter (\<lambda>x. parentNameOf x = parentName g) (documentRows csv)))"
    by (rule variants_closed)
  with kept name have "mkVariant r \<in> set (variants g)"
    by simp
  moreover from short have "weight (mkVariant r) = Num 0"
    by (simp add: mkVariant_def weightOf_absent)
  ultimately show ?thesis
    using g name by blast
qed

text \<open>
  C10 fails on the code. The weight of a row of 11 to 13 fields is 0 (\<open>weightOf_absent\<close>),
  but such a row is not always included: where its parent name is a member that every
  object inherits, such as \<open>constructor\<close>, \<open>groups[parentName]\<close> is truthy, no group is
  made, and reading \<open>.variants.some\<close> throws. The whole parse fails with a \<open>TypeError\<close>.
\<close>

theorem inherited_parent_name_throws:
  "length (parseLine ''PL,Fam,constructor,S1,d,u,1,x,2,3,4'') = 11
   \<and> parseCSV codeUnitCompare (''sku'' @ CHR 0x0A # ''PL,Fam,constructor,S1,d,u,1,x,2,3,4'')
       = Inl TypeError"
  by (simp add: eval_defs)

end
